theory Spec2Isabelle
  imports Main "HOL-Library.Multiset"
begin

section \<open>JavaScript values used by the attendance code\<close>

text \<open>
  The attendance code computes with JavaScript numbers that are either integers (minutes
  since midnight and their sums and differences) or \<open>NaN\<close> (what \<open>parseInt\<close> returns for
  text without digits). \<open>jsnum\<close> holds exactly these two kinds. Integers are unbounded here;
  the code's doubles are exact up to \<open>2^53\<close>, far beyond any minute count of a day.
  Strings are lists of 8-bit characters, so the model speaks about ASCII text.
\<close>

datatype jsnum = NaN | Num int

fun js_add :: "jsnum \<Rightarrow> jsnum \<Rightarrow> jsnum" where
  "js_add (Num a) (Num b) = Num (a + b)"
| "js_add _ _ = NaN"

fun js_sub :: "jsnum \<Rightarrow> jsnum \<Rightarrow> jsnum" where
  "js_sub (Num a) (Num b) = Num (a - b)"
| "js_sub _ _ = NaN"

fun js_mul :: "jsnum \<Rightarrow> jsnum \<Rightarrow> jsnum" where
  "js_mul (Num a) (Num b) = Num (a * b)"
| "js_mul _ _ = NaN"

text \<open>Comparisons with \<open>NaN\<close> are false.\<close>

fun js_gt :: "jsnum \<Rightarrow> jsnum \<Rightarrow> bool" where
  "js_gt (Num a) (Num b) = (b < a)"
| "js_gt _ _ = False"

fun js_le :: "jsnum \<Rightarrow> jsnum \<Rightarrow> bool" where
  "js_le (Num a) (Num b) = (a \<le> b)"
| "js_le _ _ = False"

text \<open>\<open>Math.max\<close> returns \<open>NaN\<close> as soon as one argument is \<open>NaN\<close>.\<close>

fun js_max :: "jsnum \<Rightarrow> jsnum \<Rightarrow> jsnum" where
  "js_max (Num a) (Num b) = Num (max a b)"
| "js_max _ _ = NaN"

fun isNaN :: "jsnum \<Rightarrow> bool" where
  "isNaN NaN = True"
| "isNaN (Num _) = False"

text \<open>The remainder operator \<open>%\<close> of JavaScript takes the sign of the dividend.\<close>

definition js_rem :: "int \<Rightarrow> int \<Rightarrow> int" where
  "js_rem a b = sgn a * (\<bar>a\<bar> mod \<bar>b\<bar>)"

subsection \<open>Digits, \<open>Number.prototype.toString\<close> and \<open>parseInt\<close>\<close>

definition isDigit :: "char \<Rightarrow> bool" where
  "isDigit c = (48 \<le> (of_char c :: nat) \<and> (of_char c :: nat) \<le> 57)"

definition digitVal :: "char \<Rightarrow> int" where
  "digitVal c = int (of_char c) - 48"

definition digitChar :: "nat \<Rightarrow> char" where
  "digitChar d = char_of (48 + d)"

text \<open>The decimal digits of a natural number, most significant first.\<close>

function showNat :: "nat \<Rightarrow> string" where
  "showNat n = (if n < 10 then [digitChar n] else showNat (n div 10) @ [digitChar (n mod 10)])"
  by pat_completeness auto
termination
  by (relation "measure (\<lambda>n. n)") auto

declare showNat.simps [simp del]

text \<open>\<open>toString()\<close> of an integer-valued number (below \<open>10^21\<close>, where JavaScript still
  prints all digits).\<close>

definition toString :: "int \<Rightarrow> string" where
  "toString n = (if n < 0 then CHR ''-'' # showNat (nat (- n)) else showNat (nat n))"

text \<open>\<open>s.padStart(n, c)\<close> for a one-character filler.\<close>

definition padStart :: "nat \<Rightarrow> char \<Rightarrow> string \<Rightarrow> string" where
  "padStart n c s = replicate (n - length s) c @ s"

text \<open>The white space that \<open>parseInt\<close> skips (the ASCII part of it).\<close>

definition isWhiteSpace :: "char \<Rightarrow> bool" where
  "isWhiteSpace c = ((of_char c :: nat) \<in> {9, 10, 11, 12, 13, 32})"

definition digitsValue :: "string \<Rightarrow> int" where
  "digitsValue ds = foldl (\<lambda>a c. 10 * a + digitVal c) 0 ds"

text \<open>
  \<open>parseInt(s, 10)\<close>: skip leading white space, read an optional sign, then the longest
  run of decimal digits; no digit gives \<open>NaN\<close>. The argument is \<open>None\<close> for
  \<open>undefined\<close>, whose text has no digit.
\<close>

definition parseInt :: "string option \<Rightarrow> jsnum" where
  "parseInt arg =
     (case arg of
        None \<Rightarrow> NaN
      | Some str \<Rightarrow>
          (let s = dropWhile isWhiteSpace str;
               sign = (case s of c # _ \<Rightarrow> if c = CHR ''-'' then - 1 else 1 | [] \<Rightarrow> (1::int));
               s' = (case s of c # r \<Rightarrow> if c = CHR ''-'' \<or> c = CHR ''+'' then r else s | [] \<Rightarrow> s);
               z = takeWhile isDigit s'
           in if z = [] then NaN else Num (sign * digitsValue z)))"

text \<open>\<open>s.split(':')\<close>: the pieces between the colons; a text without colon is one piece.\<close>

fun split :: "char \<Rightarrow> string \<Rightarrow> string list" where
  "split sep [] = [[]]"
| "split sep (c # cs) =
     (if c = sep then [] # split sep cs
      else (case split sep cs of p # ps \<Rightarrow> (c # p) # ps | [] \<Rightarrow> [[c]]))"

text \<open>Reading an array element: out of range is \<open>undefined\<close>.\<close>

definition at :: "'a list \<Rightarrow> nat \<Rightarrow> 'a option" where
  "at xs i = (if i < length xs then Some (xs ! i) else None)"

text \<open>\<open>toLowerCase()\<close> on ASCII text.\<close>

definition lowerChar :: "char \<Rightarrow> char" where
  "lowerChar c = (if 65 \<le> (of_char c :: nat) \<and> (of_char c :: nat) \<le> 90
                  then char_of ((of_char c :: nat) + 32) else c)"

definition toLowerCase :: "string \<Rightarrow> string" where
  "toLowerCase s = map lowerChar s"

text \<open>\<open>s.includes(k)\<close>: \<open>k\<close> occurs in \<open>s\<close> at some position.\<close>

fun startsWith :: "string \<Rightarrow> string \<Rightarrow> bool" where
  "startsWith s [] = True"
| "startsWith [] (k # ks) = False"
| "startsWith (c # cs) (k # ks) = (c = k \<and> startsWith cs ks)"

fun includesStr :: "string \<Rightarrow> string \<Rightarrow> bool" where
  "includesStr [] k = (k = [])"
| "includesStr (c # cs) k = (startsWith (c # cs) k \<or> includesStr cs k)"

section \<open>utils/helpers.js\<close>

definition ENTRY :: string where "ENTRY = ''#entry''"
definition EXIT :: string where "EXIT = ''#exit''"
definition DAILY_TASK :: string where "DAILY_TASK = ''#daily-task''"
definition DAILY_REPORT :: string where "DAILY_REPORT = ''#daily-report''"
definition LUNCH_START :: string where "LUNCH_START = ''#lunchstart''"
definition LUNCH_END :: string where "LUNCH_END = ''#lunchend''"
definition BREAK_START :: string where "BREAK_START = ''#breakstart''"
definition BREAK_END :: string where "BREAK_END = ''#breakend''"

lemmas KEYWORDS_defs =
  ENTRY_def EXIT_def DAILY_TASK_def DAILY_REPORT_def
  LUNCH_START_def LUNCH_END_def BREAK_START_def BREAK_END_def

text \<open>\<open>Object.values(KEYWORDS)\<close>: the values in the order the keys were written.\<close>

definition ALL_KEYWORDS :: "string list" where
  "ALL_KEYWORDS =
     [ENTRY, EXIT, DAILY_TASK, DAILY_REPORT, LUNCH_START, LUNCH_END, BREAK_START, BREAK_END]"

text \<open>The loop of \<open>extractKeyword\<close> over the keywords still to be tried.\<close>

fun firstIncluded :: "string \<Rightarrow> string list \<Rightarrow> string option" where
  "firstIncluded lowerText [] = None"
| "firstIncluded lowerText (keyword # rest) =
     (if includesStr lowerText keyword then Some keyword else firstIncluded lowerText rest)"

definition extractKeyword :: "string \<Rightarrow> string option" where
  "extractKeyword text = (let lowerText = toLowerCase text in firstIncluded lowerText ALL_KEYWORDS)"

text \<open>\<open>timeToMinutes\<close>: an empty text and the sentinel \<open>-\<close> count as 0 minutes.\<close>

definition timeToMinutes :: "string \<Rightarrow> jsnum" where
  "timeToMinutes timeStr =
     (if timeStr = [] \<or> timeStr = ''-'' then Num 0
      else (let parts = split (CHR '':'') timeStr;
                hours = parseInt (at parts 0);
                minutes = parseInt (at parts 1)
            in js_add (js_mul hours (Num 60)) minutes))"

text \<open>
  The time text that \<open>parseSlackTimestamp\<close> produces with the format \<open>HH:mm:ss\<close>, for
  the hour, minute and second of the clock: three numbers of two digits each.
\<close>

definition clockText :: "nat \<Rightarrow> nat \<Rightarrow> nat \<Rightarrow> string" where
  "clockText h m s =
     padStart 2 (CHR ''0'') (showNat h) @ '':'' @ padStart 2 (CHR ''0'') (showNat m) @ '':'' @
     padStart 2 (CHR ''0'') (showNat s)"

section \<open>services/attendance.js: formatting\<close>

text \<open>
  \<open>formatDuration\<close>. \<open>Math.floor(minutes / 60)\<close> is the floored quotient and
  \<open>Math.round\<close> leaves the integer remainder as it is.
\<close>

definition formatDuration :: "jsnum \<Rightarrow> string" where
  "formatDuration minutes =
     (if minutes = Num 0 \<or> isNaN minutes then ''0:00''
      else (case minutes of
              Num m \<Rightarrow>
                (let hours = m div 60;
                     mins = js_rem m 60
                 in toString hours @ '':'' @ padStart 2 (CHR ''0'') (toString mins))
            | NaN \<Rightarrow> ''0:00''))"


section \<open>services/googleSheets.js\<close>

subsection \<open>The deduplication set\<close>

text \<open>
  \<open>processedEvents\<close> is a JavaScript \<open>Set\<close> of strings. Such a set keeps its elements in
  insertion order without repetition, and \<open>Array.from\<close> reads them in that order, so it
  is a list here: the oldest key first. \<open>isEventProcessed\<close> returns its answer together
  with the set it leaves behind. \<open>arr.slice(-5000)\<close> keeps the last 5000 elements.
\<close>

definition isEventProcessed :: "string list \<Rightarrow> string \<Rightarrow> string \<Rightarrow> bool \<times> string list" where
  "isEventProcessed processedEvents slackTs keyword =
     (let eventKey = slackTs @ ''-'' @ keyword
      in if eventKey \<in> set processedEvents then (True, processedEvents)
         else (let added = processedEvents @ [eventKey]
               in if length added > 10000
                  then (let arr = added in (False, drop (length arr - 5000) arr))
                  else (False, added)))"

text \<open>The set after a sequence of calls, each given as \<open>(slackTs, keyword)\<close>.\<close>

fun afterCalls :: "string list \<Rightarrow> (string \<times> string) list \<Rightarrow> string list" where
  "afterCalls processedEvents [] = processedEvents"
| "afterCalls processedEvents ((slackTs, keyword) # calls) =
     afterCalls (snd (isEventProcessed processedEvents slackTs keyword)) calls"

text \<open>No call of the sequence reaches the clean-up: each one finds its key or leaves at most
  10000 keys.\<close>

fun noEviction :: "string list \<Rightarrow> (string \<times> string) list \<Rightarrow> bool" where
  "noEviction processedEvents [] = True"
| "noEviction processedEvents ((slackTs, keyword) # calls) =
     ((slackTs @ ''-'' @ keyword \<in> set processedEvents \<or> length processedEvents < 10000)
      \<and> noEviction (snd (isEventProcessed processedEvents slackTs keyword)) calls)"

text \<open>
  The keys that the clean-up of one call removes: \<open>arr.slice(-5000)\<close> leaves out the
  first \<open>arr.length - 5000\<close> elements. A call that finds its key, or that leaves at most
  10000 keys, removes none.
\<close>

definition evictedBy :: "string list \<Rightarrow> string \<Rightarrow> string \<Rightarrow> string list" where
  "evictedBy processedEvents slackTs keyword =
     (let eventKey = slackTs @ ''-'' @ keyword
      in if eventKey \<in> set processedEvents then []
         else (let added = processedEvents @ [eventKey]
               in if length added > 10000
                  then (let arr = added in take (length arr - 5000) arr)
                  else []))"

text \<open>No call of the sequence removes the key \<open>k\<close>; clean-ups that remove other keys may
  run.\<close>

fun keyKept :: "string \<Rightarrow> string list \<Rightarrow> (string \<times> string) list \<Rightarrow> bool" where
  "keyKept k processedEvents [] = True"
| "keyKept k processedEvents ((slackTs, keyword) # calls) =
     (k \<notin> set (evictedBy processedEvents slackTs keyword)
      \<and> keyKept k (snd (isEventProcessed processedEvents slackTs keyword)) calls)"

subsection \<open>The spreadsheet\<close>

text \<open>
  A row of the sheet \<open>raw_logs\<close> is the array \<open>[date, time, employeeName, channelName,
  keyword]\<close> that \<open>appendToRawLogs\<close> writes; the attendance code reads it by index
  (\<open>log[1]\<close> is the time, \<open>log[2]\<close> the employee name, \<open>log[4]\<close> the keyword). Rows are
  taken to have all five cells. The repository holds an older sheets service with a
  further column for the Slack user name as well; the five-column layout is the one the
  indices of the attendance service fit, and \<open>isEventProcessed\<close> is the same in both.
\<close>

datatype row = Row (logDate: string) (logTime: string) (logEmployeeName: string)
  (logChannelName: string) (logKeyword: string)

text \<open>The object \<open>summaryData\<close> built by \<open>updateDailySummary\<close> of the attendance service.\<close>

record summaryData =
  date :: string
  employeeName :: string
  entryTime :: string
  exitTime :: string
  totalHours :: string
  taskStartTime :: string
  taskEndTime :: string
  lunchDuration :: string
  breakDuration :: string
  breakCount :: nat
  netWorkingHours :: string

text \<open>
  The two sheets, each with its header row first. Cells of \<open>daily_summary\<close> are read back
  as text. Calls to the Sheets API are taken to succeed; their failures (the \<open>catch\<close>
  branches of the service) are outside this model.
\<close>

record sheets =
  raw_logs :: "row list"
  daily_summary :: "string list list"

definition getDailyLogs :: "sheets \<Rightarrow> string \<Rightarrow> row list" where
  "getDailyLogs sh d = (let rows = raw_logs sh in filter (\<lambda>row. logDate row = d) (drop 1 rows))"

text \<open>The search loop of the summary upsert: \<open>rowIndex\<close> is the 1-based sheet row of the first
  data row with this date and employee, or \<open>-1\<close>.\<close>

function findSummaryRow :: "string list list \<Rightarrow> string \<Rightarrow> string \<Rightarrow> nat \<Rightarrow> int" where
  "findSummaryRow rows d emp i =
     (if i < length rows
      then (if at (rows ! i) 0 = Some d \<and> at (rows ! i) 1 = Some emp then int i + 1
            else findSummaryRow rows d emp (i + 1))
      else - 1)"
  by pat_completeness auto
termination
  by (relation "measure (\<lambda>(rows, d, emp, i). length rows - i)") auto

declare findSummaryRow.simps [simp del]

text \<open>\<open>x || fallback\<close> on a string: the empty string is falsy.\<close>

definition orElse :: "string \<Rightarrow> string \<Rightarrow> string" where
  "orElse x fallback = (if x = [] then fallback else x)"

definition sheetsUpdateDailySummary :: "sheets \<Rightarrow> summaryData \<Rightarrow> sheets" where
  "sheetsUpdateDailySummary sh sd =
     (let rows = daily_summary sh;
          rowIndex = findSummaryRow rows (date sd) (employeeName sd) 1;
          rowData =
            [orElse (date sd) ''-'', orElse (employeeName sd) ''-'',
             orElse (entryTime sd) ''-'', orElse (exitTime sd) ''-'',
             orElse (totalHours sd) ''0:00'',
             orElse (taskStartTime sd) ''-'', orElse (taskEndTime sd) ''-'',
             orElse (lunchDuration sd) ''0:00'', orElse (breakDuration sd) ''0:00'',
             toString (int (breakCount sd)),
             orElse (netWorkingHours sd) ''0:00'']
      in if rowIndex > 0
         then sh\<lparr>daily_summary := rows[nat (rowIndex - 1) := rowData]\<rparr>
         else sh\<lparr>daily_summary := rows @ [rowData]\<rparr>)"

section \<open>services/attendance.js: the daily summary\<close>

subsection \<open>\<open>Array.prototype.sort\<close> with a comparator\<close>

text \<open>
  The sort is stable, and a comparator result \<open>NaN\<close> counts as 0. It is modelled by stable
  insertion: an element goes in front of the first one it does not compare greater than.
  When every compared time parses, the comparator is a consistent ordering and every
  stable sort returns this same list. When a time parses to \<open>NaN\<close> the comparator is not
  consistent and JavaScript leaves the resulting order to the implementation; the results
  below that depend on the order assume that the times parse.
\<close>

fun insertBy :: "('a \<Rightarrow> 'a \<Rightarrow> jsnum) \<Rightarrow> 'a \<Rightarrow> 'a list \<Rightarrow> 'a list" where
  "insertBy cmp x [] = [x]"
| "insertBy cmp x (y # ys) =
     (if js_gt (cmp x y) (Num 0) then y # insertBy cmp x ys else x # y # ys)"

definition sortBy :: "('a \<Rightarrow> 'a \<Rightarrow> jsnum) \<Rightarrow> 'a list \<Rightarrow> 'a list" where
  "sortBy cmp xs = foldr (insertBy cmp) xs []"

text \<open>\<open>userLogs.sort((a, b) => timeToMinutes(a[1]) - timeToMinutes(b[1]))\<close>\<close>

definition sortByTime :: "row list \<Rightarrow> row list" where
  "sortByTime userLogs =
     sortBy (\<lambda>a b. let timeA = timeToMinutes (logTime a); timeB = timeToMinutes (logTime b)
                    in js_sub timeA timeB) userLogs"

subsection \<open>Durations\<close>

definition calculateDuration :: "string \<Rightarrow> string \<Rightarrow> jsnum" where
  "calculateDuration startTime endTime =
     (if startTime = ''-'' \<or> endTime = ''-'' then Num 0
      else (let startMinutes = timeToMinutes startTime;
                endMinutes = timeToMinutes endTime
            in if js_le endMinutes startMinutes then Num 0
               else js_sub endMinutes startMinutes))"

definition calculateLunchDuration :: "row list \<Rightarrow> jsnum" where
  "calculateLunchDuration userLogs =
     (let lunchStart = find (\<lambda>log. logKeyword log = LUNCH_START) userLogs;
          lunchEnd = find (\<lambda>log. logKeyword log = LUNCH_END) userLogs
      in case (lunchStart, lunchEnd) of
           (Some ls, Some le) \<Rightarrow>
             (let startMinutes = timeToMinutes (logTime ls);
                  endMinutes = timeToMinutes (logTime le)
              in if js_gt endMinutes startMinutes then js_sub endMinutes startMinutes
                 else Num 0)
         | _ \<Rightarrow> Num 0)"

text \<open>
  The inner loop of \<open>calculateBreakDuration\<close>: the first index from \<open>i\<close> on that is not in
  \<open>usedEnds\<close> and whose break end is later than the start; \<open>None\<close> when the loop runs out.
  A break start or end is the pair of its time text and its minutes.
\<close>

function findBreakEnd :: "(string \<times> jsnum) list \<Rightarrow> nat set \<Rightarrow> jsnum \<Rightarrow> nat \<Rightarrow> nat option" where
  "findBreakEnd breakEnds usedEnds startMinutes i =
     (if i < length breakEnds
      then (if i \<notin> usedEnds \<and> js_gt (snd (breakEnds ! i)) startMinutes then Some i
            else findBreakEnd breakEnds usedEnds startMinutes (i + 1))
      else None)"
  by pat_completeness auto
termination
  by (relation "measure (\<lambda>(breakEnds, usedEnds, startMinutes, i). length breakEnds - i)") auto

declare findBreakEnd.simps [simp del]

text \<open>The outer loop over the break starts, carrying \<open>totalBreakMinutes\<close> and \<open>usedEnds\<close>.\<close>

fun matchBreaks ::
  "(string \<times> jsnum) list \<Rightarrow> (string \<times> jsnum) list \<Rightarrow> jsnum \<times> nat set \<Rightarrow> jsnum \<times> nat set" where
  "matchBreaks breakEnds [] (totalBreakMinutes, usedEnds) = (totalBreakMinutes, usedEnds)"
| "matchBreaks breakEnds (start # starts) (totalBreakMinutes, usedEnds) =
     (case findBreakEnd breakEnds usedEnds (snd start) 0 of
        Some i \<Rightarrow>
          (let breakTime = js_sub (snd (breakEnds ! i)) (snd start)
           in matchBreaks breakEnds starts (js_add totalBreakMinutes breakTime, insert i usedEnds))
      | None \<Rightarrow> matchBreaks breakEnds starts (totalBreakMinutes, usedEnds))"

definition breakEvents :: "string \<Rightarrow> row list \<Rightarrow> (string \<times> jsnum) list" where
  "breakEvents kw userLogs =
     sortBy (\<lambda>a b. js_sub (snd a) (snd b))
       (map (\<lambda>log. (logTime log, timeToMinutes (logTime log)))
          (filter (\<lambda>log. logKeyword log = kw) userLogs))"

definition calculateBreakDuration :: "row list \<Rightarrow> jsnum" where
  "calculateBreakDuration userLogs =
     (let breakStarts = breakEvents BREAK_START userLogs;
          breakEnds = breakEvents BREAK_END userLogs
      in fst (matchBreaks breakEnds breakStarts (Num 0, {})))"

definition countBreaks :: "row list \<Rightarrow> nat" where
  "countBreaks userLogs =
     (let breakStarts = filter (\<lambda>log. logKeyword log = BREAK_START) userLogs;
          breakEnds = filter (\<lambda>log. logKeyword log = BREAK_END) userLogs
      in min (length breakStarts) (length breakEnds))"

subsection \<open>The values computed by \<open>updateDailySummary\<close>\<close>

text \<open>Each local constant of \<open>updateDailySummary\<close> as a function of the sorted \<open>userLogs\<close>.\<close>

text \<open>
  \<open>userLogs.find(log => log[4] === kw)\<close> followed by \<open>found ? found[1] : '-'\<close>, the
  pattern of \<open>entryTime\<close> and \<open>taskStartTime\<close>.
\<close>

definition firstTime :: "string \<Rightarrow> row list \<Rightarrow> string" where
  "firstTime kw userLogs =
     (let found = find (\<lambda>log. logKeyword log = kw) userLogs
      in case found of Some l \<Rightarrow> logTime l | None \<Rightarrow> ''-'')"

text \<open>
  \<open>userLogs.filter(log => log[4] === kw)\<close> followed by
  \<open>logs.length > 0 ? logs[logs.length - 1][1] : '-'\<close>, the pattern of \<open>exitTime\<close> and
  \<open>taskEndTime\<close>.
\<close>

definition lastTime :: "string \<Rightarrow> row list \<Rightarrow> string" where
  "lastTime kw userLogs =
     (let logs = filter (\<lambda>log. logKeyword log = kw) userLogs
      in if length logs > 0 then logTime (logs ! (length logs - 1)) else ''-'')"

definition entryTimeOf :: "row list \<Rightarrow> string" where
  "entryTimeOf userLogs = firstTime ENTRY userLogs"

definition exitTimeOf :: "row list \<Rightarrow> string" where
  "exitTimeOf userLogs = lastTime EXIT userLogs"

definition totalHoursOf :: "row list \<Rightarrow> jsnum" where
  "totalHoursOf userLogs = calculateDuration (entryTimeOf userLogs) (exitTimeOf userLogs)"

definition taskStartTimeOf :: "row list \<Rightarrow> string" where
  "taskStartTimeOf userLogs = firstTime DAILY_TASK userLogs"

definition taskEndTimeOf :: "row list \<Rightarrow> string" where
  "taskEndTimeOf userLogs = lastTime DAILY_REPORT userLogs"

definition grossWorkingTimeOf :: "row list \<Rightarrow> jsnum" where
  "grossWorkingTimeOf userLogs =
     calculateDuration (taskStartTimeOf userLogs) (taskEndTimeOf userLogs)"

definition netWorkingHoursOf :: "row list \<Rightarrow> jsnum" where
  "netWorkingHoursOf userLogs =
     (let grossWorkingTime = grossWorkingTimeOf userLogs;
          lunchDuration = calculateLunchDuration userLogs;
          breakDuration = calculateBreakDuration userLogs
      in js_max (Num 0) (js_sub (js_sub grossWorkingTime lunchDuration) breakDuration))"

text \<open>
  \<open>updateDailySummary\<close> of the attendance service: the value it returns (\<open>None\<close> for
  \<open>null\<close>) and the spreadsheet it leaves behind.
\<close>

definition updateDailySummary :: "sheets \<Rightarrow> string \<Rightarrow> string \<Rightarrow> summaryData option \<times> sheets" where
  "updateDailySummary sh d emp =
     (let dailyLogs = getDailyLogs sh d;
          userLogs = filter (\<lambda>log. logEmployeeName log = emp) dailyLogs
      in if length userLogs = 0 then (None, sh)
         else (let userLogs = sortByTime userLogs;
                   summary =
                     \<lparr>date = d,
                      employeeName = emp,
                      entryTime = entryTimeOf userLogs,
                      exitTime = exitTimeOf userLogs,
                      totalHours = formatDuration (totalHoursOf userLogs),
                      taskStartTime = taskStartTimeOf userLogs,
                      taskEndTime = taskEndTimeOf userLogs,
                      lunchDuration = formatDuration (calculateLunchDuration userLogs),
                      breakDuration = formatDuration (calculateBreakDuration userLogs),
                      breakCount = countBreaks userLogs,
                      netWorkingHours = formatDuration (netWorkingHoursOf userLogs)\<rparr>
               in (Some summary, sheetsUpdateDailySummary sh summary)))"

subsection \<open>The summary with the sort of the engine as a parameter\<close>



section \<open>The pairing rule as the specification words it\<close>

text \<open>
  For each break start, in the order given (ascending), the earliest still unused break
  end strictly later than it is paired with it and marked as used; a start without such
  an end is skipped.
\<close>

fun greedyPairs :: "int list \<Rightarrow> int list \<Rightarrow> (int \<times> int) list" where
  "greedyPairs [] unusedEnds = []"
| "greedyPairs (s # starts) unusedEnds =
     (let later = filter (\<lambda>e. s < e) unusedEnds
      in if later = [] then greedyPairs starts unusedEnds
         else (let e = Min (set later)
               in (s, e) # greedyPairs starts (remove1 e unusedEnds)))"

definition pairMinutes :: "(int \<times> int) list \<Rightarrow> int" where
  "pairMinutes pairs = sum_list (map (\<lambda>(s, e). e - s) pairs)"

text \<open>The integer held by a number (0 for \<open>NaN\<close>), and the minutes of a row's time.\<close>

definition theMinutes :: "jsnum \<Rightarrow> int" where
  "theMinutes v = (case v of Num n \<Rightarrow> n | NaN \<Rightarrow> 0)"

definition rowMinutes :: "row \<Rightarrow> int" where
  "rowMinutes log = theMinutes (timeToMinutes (logTime log))"

text \<open>The minutes since midnight of the events of one keyword, in the order of the list
  (an event whose time does not parse has none).\<close>

definition minutesOf :: "string \<Rightarrow> row list \<Rightarrow> int list" where
  "minutesOf kw logs =
     concat (map (\<lambda>log. case timeToMinutes (logTime log) of Num n \<Rightarrow> [n] | NaN \<Rightarrow> [])
               (filter (\<lambda>log. logKeyword log = kw) logs))"

definition greedyBreakPairs :: "row list \<Rightarrow> (int \<times> int) list" where
  "greedyBreakPairs logs =
     greedyPairs (sort (minutesOf BREAK_START logs)) (sort (minutesOf BREAK_END logs))"

text \<open>Every time of the list parses to a number of minutes.\<close>

definition timesParse :: "row list \<Rightarrow> bool" where
  "timesParse logs = list_all (\<lambda>log. \<not> isNaN (timeToMinutes (logTime log))) logs"


section \<open>Digits and the duration formatter\<close>


lemma isDigit_digitChar: "d < 10 \<Longrightarrow> isDigit (digitChar d)"
  by (simp add: isDigit_def digitChar_def)

lemma digitVal_digitChar: "d < 10 \<Longrightarrow> digitVal (digitChar d) = int d"
  by (simp add: digitVal_def digitChar_def)

lemma of_char_digitChar: "d < 10 \<Longrightarrow> of_char (digitChar d) = 48 + d"
  by (simp add: digitChar_def)

lemma digitChar_0: "digitChar 0 = CHR ''0''"
proof -
  have "char_of (of_char (CHR ''0'') :: nat) = CHR ''0''" by (rule char_of_char)
  then show ?thesis by (simp add: digitChar_def)
qed

lemma showNat_digits: "c \<in> set (showNat n) \<Longrightarrow> isDigit c"
proof (induction n arbitrary: c rule: showNat.induct)
  case (1 n)
  show ?case
  proof (cases "n < 10")
    case True
    with "1.prems" show ?thesis
      by (simp add: showNat.simps [of n] isDigit_digitChar)
  next
    case False
    with "1.prems" "1.IH" show ?thesis
      by (auto simp: showNat.simps [of n] isDigit_digitChar)
  qed
qed

lemma showNat_not_Nil: "showNat n \<noteq> []"
  by (simp add: showNat.simps [of n])

lemma digitsValue_snoc: "digitsValue (ds @ [c]) = 10 * digitsValue ds + digitVal c"
  by (simp add: digitsValue_def)

lemma digitsValue_showNat: "digitsValue (showNat n) = int n"
proof (induction n rule: showNat.induct)
  case (1 n)
  show ?case
  proof (cases "n < 10")
    case True
    then show ?thesis
      by (simp add: showNat.simps [of n] digitsValue_def digitVal_digitChar)
  next
    case False
    have "int (10 * (n div 10) + n mod 10) = int n" by simp
    then have "10 * int (n div 10) + int (n mod 10) = int n" by (simp only: of_nat_add of_nat_mult of_nat_numeral)
    with False "1.IH" show ?thesis
      by (simp add: showNat.simps [of n] digitsValue_snoc digitVal_digitChar)
  qed
qed

lemma isDigit_not_special:
  "isDigit c \<Longrightarrow> \<not> isWhiteSpace c \<and> c \<noteq> CHR ''-'' \<and> c \<noteq> CHR ''+'' \<and> c \<noteq> CHR '':''"
  by (auto simp: isDigit_def isWhiteSpace_def)

lemma parseInt_digits:
  assumes "ds \<noteq> []" and "\<forall>c \<in> set ds. isDigit c"
  shows "parseInt (Some ds) = Num (digitsValue ds)"
proof -
  from assms obtain c r where ds: "ds = c # r" by (cases ds) auto
  with assms have c: "isDigit c" by simp
  have tw: "takeWhile isDigit ds = ds" using assms(2) by (simp add: takeWhile_eq_all_conv)
  show ?thesis
    using isDigit_not_special [OF c] tw assms(1) 
    by (simp add: parseInt_def ds Let_def)
qed

lemma parseInt_showNat: "parseInt (Some (showNat n)) = Num (int n)"
  using parseInt_digits [of "showNat n"] showNat_not_Nil [of n] showNat_digits [of _ n]
  by (simp add: digitsValue_showNat)

lemma split_no_sep: "sep \<notin> set s \<Longrightarrow> split sep s = [s]"
  by (induction s) auto

lemma split_at_first: "sep \<notin> set a \<Longrightarrow> split sep (a @ sep # b) = a # split sep b"
  by (induction a) auto

lemma showNat_no_colon: "CHR '':'' \<notin> set (showNat n)"
  using showNat_digits [of "CHR '':''" n] isDigit_not_special [of "CHR '':''"] by blast

lemma showNat_two_digits:
  "k < 100 \<Longrightarrow> padStart 2 (CHR ''0'') (showNat k) = [digitChar (k div 10), digitChar (k mod 10)]"
proof (cases "k < 10")
  case True
  then show ?thesis by (simp add: showNat.simps [of k] padStart_def digitChar_0)
next
  case False
  assume "k < 100"
  with False have "k div 10 < 10" by simp
  with False show ?thesis
    by (simp add: showNat.simps [of k] showNat.simps [of "k div 10"] padStart_def)
qed

lemma showNat_hd: "0 < n \<Longrightarrow> hd (showNat n) \<noteq> CHR ''0''"
proof (induction n rule: showNat.induct)
  case (1 n)
  show ?case
  proof (cases "n < 10")
    case True
    with "1.prems" have "(of_char (digitChar n) :: nat) \<noteq> of_char (CHR ''0'')"
      by (simp add: of_char_digitChar)
    then have "digitChar n \<noteq> CHR ''0''" by metis
    with True show ?thesis
      by (simp add: showNat.simps [of n])
  next
    case False
    with "1.IH" show ?thesis
      by (simp add: showNat.simps [of n] showNat_not_Nil)
  qed
qed


lemma toString_nonneg: "0 \<le> n \<Longrightarrow> toString n = showNat (nat n)"
  by (simp add: toString_def)

lemma parseInt_toString_nonneg: "0 \<le> n \<Longrightarrow> parseInt (Some (toString n)) = Num n"
  by (simp add: toString_nonneg parseInt_showNat)

lemma parseInt_two_digits:
  "k < 100 \<Longrightarrow> parseInt (Some [digitChar (k div 10), digitChar (k mod 10)]) = Num (int k)"
proof -
  assume k: "k < 100"
  then have d: "k div 10 < 10" by simp
  have "int (10 * (k div 10) + k mod 10) = int k" by simp
  then have v: "10 * int (k div 10) + int (k mod 10) = int k"
    by (simp only: of_nat_add of_nat_mult of_nat_numeral)
  have "parseInt (Some [digitChar (k div 10), digitChar (k mod 10)])
        = Num (digitsValue [digitChar (k div 10), digitChar (k mod 10)])"
    by (rule parseInt_digits) (simp_all add: isDigit_digitChar d)
  also have "\<dots> = Num (int k)"
    using v by (simp add: digitsValue_def digitVal_digitChar d)
  finally show ?thesis .
qed

lemma js_rem_nonneg: "0 \<le> m \<Longrightarrow> js_rem m 60 = m mod 60"
  by (cases "m = 0") (simp_all add: js_rem_def)

lemma formatDuration_nonneg:
  assumes "0 \<le> m"
  shows "formatDuration (Num m) =
           toString (m div 60) @ '':'' @
           [digitChar (nat (m mod 60) div 10), digitChar (nat (m mod 60) mod 10)]"
proof (cases "m = 0")
  case True
  then show ?thesis
    by (simp add: formatDuration_def toString_def showNat.simps [of 0] digitChar_0)
next
  case False
  have k: "nat (m mod 60) < 100" by simp
  have "toString (m mod 60) = showNat (nat (m mod 60))"
    by (simp add: toString_nonneg)
  then have "padStart 2 (CHR ''0'') (toString (m mod 60)) =
             [digitChar (nat (m mod 60) div 10), digitChar (nat (m mod 60) mod 10)]"
    using showNat_two_digits [OF k] by simp
  with False assms show ?thesis
    by (simp add: formatDuration_def js_rem_nonneg Let_def)
qed

lemma timeToMinutes_hours_minutes:
  assumes h: "0 \<le> h" and k: "k < 100"
  shows "timeToMinutes (toString h @ '':'' @ [digitChar (k div 10), digitChar (k mod 10)])
         = Num (h * 60 + int k)"
proof -
  let ?H = "toString h" and ?M = "[digitChar (k div 10), digitChar (k mod 10)]"
  from k have d: "k div 10 < 10" by simp
  have H: "CHR '':'' \<notin> set ?H"
    using h by (simp add: toString_nonneg showNat_no_colon)
  have M: "CHR '':'' \<notin> set ?M"
    using isDigit_not_special [OF isDigit_digitChar [OF d]]
          isDigit_not_special [OF isDigit_digitChar [of "k mod 10"]] by auto
  have sp: "split (CHR '':'') (?H @ CHR '':'' # ?M) = [?H, ?M]"
    using split_at_first [OF H, of ?M] split_no_sep [OF M] by simp
  have ne: "?H @ CHR '':'' # ?M \<noteq> ''-''" by simp
  have "timeToMinutes (?H @ CHR '':'' # ?M) =
        js_add (js_mul (parseInt (Some ?H)) (Num 60)) (parseInt (Some ?M))"
    unfolding timeToMinutes_def Let_def sp using ne by (simp add: at_def)
  then show ?thesis
    using parseInt_toString_nonneg [OF h] parseInt_two_digits [OF k] by simp
qed

text \<open>
  Claim C6. For every minute count \<open>m \<ge> 0\<close>, \<open>formatDuration\<close> returns the decimal
  digits of \<open>m div 60\<close> (no padding: the text is \<open>0\<close> or does not begin with \<open>0\<close>), a
  colon, and \<open>m mod 60\<close> as exactly two digits; reading the text back with
  \<open>timeToMinutes\<close>, that is as hours times 60 plus minutes, gives \<open>m\<close> again; and
  \<open>formatDuration 0\<close> is \<open>0:00\<close>.
\<close>

theorem formatDuration_roundtrip:
  "0 \<le> m \<Longrightarrow>
     formatDuration (Num m) =
       toString (m div 60) @ '':'' @
       [digitChar (nat (m mod 60) div 10), digitChar (nat (m mod 60) mod 10)]
   \<and> parseInt (Some (toString (m div 60))) = Num (m div 60)
   \<and> (toString (m div 60) = ''0'' \<or> hd (toString (m div 60)) \<noteq> CHR ''0'')
   \<and> parseInt (Some [digitChar (nat (m mod 60) div 10), digitChar (nat (m mod 60) mod 10)])
       = Num (m mod 60)
   \<and> timeToMinutes (formatDuration (Num m)) = Num m
   \<and> formatDuration (Num 0) = ''0:00''"
proof -
  assume m: "0 \<le> m"
  then have h: "0 \<le> m div 60" by simp
  have k: "nat (m mod 60) < 100" by simp
  have f: "formatDuration (Num m) =
       toString (m div 60) @ '':'' @
       [digitChar (nat (m mod 60) div 10), digitChar (nat (m mod 60) mod 10)]"
    by (rule formatDuration_nonneg [OF m])
  have p: "parseInt (Some (toString (m div 60))) = Num (m div 60)"
    by (rule parseInt_toString_nonneg [OF h])
  have z: "toString (m div 60) = ''0'' \<or> hd (toString (m div 60)) \<noteq> CHR ''0''"
  proof (cases "m div 60 = 0")
    case True
    then show ?thesis by (simp add: toString_def showNat.simps [of 0] digitChar_0)
  next
    case False
    with h have "0 < nat (m div 60)" by simp
    then show ?thesis using h by (simp add: toString_nonneg showNat_hd)
  qed
  have q: "parseInt (Some [digitChar (nat (m mod 60) div 10), digitChar (nat (m mod 60) mod 10)])
       = Num (m mod 60)"
    using parseInt_two_digits [OF k] by simp
  have r: "timeToMinutes (formatDuration (Num m)) = Num m"
    using timeToMinutes_hours_minutes [OF h k] by (simp add: f)
  have e: "formatDuration (Num 0) = ''0:00''"
    by (simp add: formatDuration_def)
  from f p z q r e show ?thesis by blast
qed

theorem formatDuration_roundtrip_witness:
  "(0::int) \<le> 510 \<and> formatDuration (Num 510) = ''8:30'' \<and> timeToMinutes ''8:30'' = Num 510"
proof -
  have a: "formatDuration (Num 510) = ''8:30''" by code_simp
  have h: "(0::int) \<le> 510" by simp
  from formatDuration_roundtrip [OF h]
  have "timeToMinutes (formatDuration (Num 510)) = Num 510" by blast
  then have "timeToMinutes ''8:30'' = Num 510" by (simp only: a)
  with a h show ?thesis by blast
qed

text \<open>Every clock time written as \<open>HH:mm:ss\<close> parses to its minutes since midnight.\<close>

lemma two_digits_no_colon:
  "k < 100 \<Longrightarrow> CHR '':'' \<notin> set [digitChar (k div 10), digitChar (k mod 10)]"
proof -
  assume "k < 100"
  then have d: "k div 10 < 10" by simp
  show ?thesis
    using isDigit_not_special [OF isDigit_digitChar [OF d]]
          isDigit_not_special [OF isDigit_digitChar [of "k mod 10"]] by auto
qed

lemma timeToMinutes_clockText:
  assumes "h < 24" and "m < 60" and "s < 60"
  shows "timeToMinutes (clockText h m s) = Num (int h * 60 + int m)"
proof -
  let ?H = "[digitChar (h div 10), digitChar (h mod 10)]"
  let ?M = "[digitChar (m div 10), digitChar (m mod 10)]"
  let ?S = "[digitChar (s div 10), digitChar (s mod 10)]"
  from assms have b: "h < 100" "m < 100" "s < 100" by simp_all
  have c: "clockText h m s = ?H @ CHR '':'' # ?M @ CHR '':'' # ?S"
    by (simp add: clockText_def showNat_two_digits [OF b(1)] showNat_two_digits [OF b(2)]
          showNat_two_digits [OF b(3)])
  have sp: "split (CHR '':'') (?H @ CHR '':'' # ?M @ CHR '':'' # ?S) = [?H, ?M, ?S]"
    using split_at_first [OF two_digits_no_colon [OF b(1)], of "?M @ CHR '':'' # ?S"]
          split_at_first [OF two_digits_no_colon [OF b(2)], of ?S]
          split_no_sep [OF two_digits_no_colon [OF b(3)]]
    by simp
  have "timeToMinutes (?H @ CHR '':'' # ?M @ CHR '':'' # ?S) =
        js_add (js_mul (parseInt (Some ?H)) (Num 60)) (parseInt (Some ?M))"
    unfolding timeToMinutes_def Let_def sp by (simp add: at_def)
  then show ?thesis
    using parseInt_two_digits [OF b(1)] parseInt_two_digits [OF b(2)] by (simp add: c)
qed

section \<open>The keyword classifier\<close>

lemma startsWith_iff: "startsWith s k \<longleftrightarrow> (\<exists>suf. s = k @ suf)"
  by (induction s k rule: startsWith.induct) auto

lemma includesStr_iff: "includesStr s k \<longleftrightarrow> (\<exists>pre suf. s = pre @ k @ suf)"
proof (induction s)
  case Nil
  then show ?case by auto
next
  case (Cons c cs)
  show ?case
  proof
    assume "includesStr (c # cs) k"
    then consider "startsWith (c # cs) k" | "includesStr cs k" by auto
    then show "\<exists>pre suf. c # cs = pre @ k @ suf"
    proof cases
      case 1
      then obtain suf where "c # cs = k @ suf" by (auto simp: startsWith_iff)
      then have "c # cs = [] @ k @ suf" by simp
      then show ?thesis by blast
    next
      case 2
      with Cons.IH obtain pre suf where "cs = pre @ k @ suf" by auto
      then have "c # cs = (c # pre) @ k @ suf" by simp
      then show ?thesis by blast
    qed
  next
    assume "\<exists>pre suf. c # cs = pre @ k @ suf"
    then obtain pre suf where e: "c # cs = pre @ k @ suf" by auto
    show "includesStr (c # cs) k"
    proof (cases pre)
      case Nil
      with e have "startsWith (c # cs) k" by (auto simp: startsWith_iff)
      then show ?thesis by simp
    next
      case (Cons p ps)
      with e have "cs = ps @ k @ suf" by simp
      with Cons.IH have "includesStr cs k" by blast
      then show ?thesis by simp
    qed
  qed
qed

lemma firstIncluded_find: "firstIncluded s ks = find (\<lambda>k. \<exists>pre suf. s = pre @ k @ suf) ks"
  by (induction ks) (simp_all add: includesStr_iff)

lemma toLowerCase_alphabet:
  "toLowerCase ''ABCDEFGHIJKLMNOPQRSTUVWXYZ'' = ''abcdefghijklmnopqrstuvwxyz''"
  by code_simp

lemma of_char_mem: "(of_char c :: nat) \<in> set (map of_char xs) \<Longrightarrow> c \<in> set xs"
  by (induction xs) auto

lemma upper_codes_first:
  "map (of_char :: char \<Rightarrow> nat) ''ABCDEFGHIJKLM'' =
     [65, 66, 67, 68, 69, 70, 71, 72, 73, 74, 75, 76, 77]"
  by simp

lemma upper_codes_second:
  "map (of_char :: char \<Rightarrow> nat) ''NOPQRSTUVWXYZ'' =
     [78, 79, 80, 81, 82, 83, 84, 85, 86, 87, 88, 89, 90]"
  by simp

lemma upper_letter:
  assumes "65 \<le> (of_char c :: nat)" and "(of_char c :: nat) \<le> 90"
  shows "c \<in> set ''ABCDEFGHIJKLMNOPQRSTUVWXYZ''"
proof (cases "(of_char c :: nat) \<le> 77")
  case True
  with assms(1) have "(of_char c :: nat) \<in> set [65, 66, 67, 68, 69, 70, 71, 72, 73, 74, 75, 76, 77]"
    by simp arith
  then have "(of_char c :: nat) \<in> set (map of_char ''ABCDEFGHIJKLM'')"
    by (simp only: upper_codes_first)
  then have "c \<in> set ''ABCDEFGHIJKLM''" by (rule of_char_mem)
  then show ?thesis by auto
next
  case False
  with assms(2) have "(of_char c :: nat) \<in> set [78, 79, 80, 81, 82, 83, 84, 85, 86, 87, 88, 89, 90]"
    by simp arith
  then have "(of_char c :: nat) \<in> set (map of_char ''NOPQRSTUVWXYZ'')"
    by (simp only: upper_codes_second)
  then have "c \<in> set ''NOPQRSTUVWXYZ''" by (rule of_char_mem)
  then show ?thesis by auto
qed

lemma lowerChar_upper:
  "u \<in> set ''ABCDEFGHIJKLMNOPQRSTUVWXYZ'' \<Longrightarrow>
   lowerChar u =
     (case map_of (zip ''ABCDEFGHIJKLMNOPQRSTUVWXYZ'' ''abcdefghijklmnopqrstuvwxyz'') u of
        Some l \<Rightarrow> l | None \<Rightarrow> u)"
  using toLowerCase_alphabet by (auto simp: toLowerCase_def)

lemma lowerChar_table:
  "lowerChar c =
     (case map_of (zip ''ABCDEFGHIJKLMNOPQRSTUVWXYZ'' ''abcdefghijklmnopqrstuvwxyz'') c of
        Some l \<Rightarrow> l | None \<Rightarrow> c)"
proof (cases "c \<in> set ''ABCDEFGHIJKLMNOPQRSTUVWXYZ''")
  case True
  then show ?thesis by (rule lowerChar_upper)
next
  case False
  have "length ''ABCDEFGHIJKLMNOPQRSTUVWXYZ'' = length ''abcdefghijklmnopqrstuvwxyz''"
    by simp
  from map_of_zip_is_None [OF this, of c] False
  have n: "map_of (zip ''ABCDEFGHIJKLMNOPQRSTUVWXYZ'' ''abcdefghijklmnopqrstuvwxyz'') c = None"
    by blast
  from False upper_letter [of c]
  have "\<not> (65 \<le> (of_char c :: nat) \<and> (of_char c :: nat) \<le> 90)" by blast
  then have "lowerChar c = c" by (simp only: lowerChar_def if_False)
  with n show ?thesis by (simp only: option.case)
qed

text \<open>
  Claim C9. \<open>extractKeyword\<close> lower-cases the text, that is, it replaces each of the
  letters \<open>A\<close> to \<open>Z\<close> by the letter \<open>a\<close> to \<open>z\<close> at the same place of the alphabet
  and leaves every other character, and returns the first keyword, in the order
  \<open>#entry\<close>, \<open>#exit\<close>, \<open>#daily-task\<close>, \<open>#daily-report\<close>, \<open>#lunchstart\<close>, \<open>#lunchend\<close>,
  \<open>#breakstart\<close>, \<open>#breakend\<close>, that occurs somewhere in the lowered text, and \<open>None\<close>
  (the \<open>null\<close> of the code) when none occurs. It is a function of the text alone. So
  \<open>#ENTRY\<close> in a message gives \<open>#entry\<close>, and a message with both \<open>#Exit\<close> and \<open>#entry\<close>
  gives \<open>#entry\<close>, the earlier keyword of the vocabulary.
\<close>

theorem extractKeyword_first_match:
  "extractKeyword text =
     find (\<lambda>keyword. \<exists>pre suf.
             map (\<lambda>c. case map_of (zip ''ABCDEFGHIJKLMNOPQRSTUVWXYZ''
                                        ''abcdefghijklmnopqrstuvwxyz'') c of
                         Some l \<Rightarrow> l | None \<Rightarrow> c) text = pre @ keyword @ suf)
       [''#entry'', ''#exit'', ''#daily-task'', ''#daily-report'',
        ''#lunchstart'', ''#lunchend'', ''#breakstart'', ''#breakend'']
   \<and> toLowerCase ''Reached Office #ENTRY'' = ''reached office #entry''
   \<and> extractKeyword ''Reached Office #ENTRY'' = Some ''#entry''
   \<and> extractKeyword ''#Exit now, #entry was at 9'' = Some ''#entry''
   \<and> extractKeyword ''Good morning'' = None"
proof -
  have m: "toLowerCase text =
        map (\<lambda>c. case map_of (zip ''ABCDEFGHIJKLMNOPQRSTUVWXYZ''
                                        ''abcdefghijklmnopqrstuvwxyz'') c of
                         Some l \<Rightarrow> l | None \<Rightarrow> c) text"
    unfolding toLowerCase_def by (rule map_cong [OF refl]) (rule lowerChar_table)
  have a: "extractKeyword text =
     find (\<lambda>keyword. \<exists>pre suf.
             map (\<lambda>c. case map_of (zip ''ABCDEFGHIJKLMNOPQRSTUVWXYZ''
                                        ''abcdefghijklmnopqrstuvwxyz'') c of
                         Some l \<Rightarrow> l | None \<Rightarrow> c) text = pre @ keyword @ suf)
       [''#entry'', ''#exit'', ''#daily-task'', ''#daily-report'',
        ''#lunchstart'', ''#lunchend'', ''#breakstart'', ''#breakend'']"
    by (simp only: extractKeyword_def Let_def firstIncluded_find ALL_KEYWORDS_def KEYWORDS_defs m)
  have b: "toLowerCase ''Reached Office #ENTRY'' = ''reached office #entry''" by code_simp
  have c: "extractKeyword ''Reached Office #ENTRY'' = Some ''#entry''" by code_simp
  have d: "extractKeyword ''#Exit now, #entry was at 9'' = Some ''#entry''" by code_simp
  have e: "extractKeyword ''Good morning'' = None" by code_simp
  from a b c d e show ?thesis by (intro conjI)
qed

section \<open>The deduplicator\<close>

lemma last_occurrence_unique:
  assumes "x \<notin> set b" and "x \<notin> set b'" and "a @ x # b = a' @ x # b'"
  shows "a = a' \<and> b = b'"
proof -
  have t: "takeWhile (\<lambda>c. c \<noteq> x) (u @ x # v) = u" if "x \<notin> set u" for u v :: "'a list"
    using that by (induction u) auto
  from assms(3) have "rev (a @ x # b) = rev (a' @ x # b')" by simp
  then have "rev b @ x # rev a = rev b' @ x # rev a'" by simp
  then have "takeWhile (\<lambda>c. c \<noteq> x) (rev b @ x # rev a)
           = takeWhile (\<lambda>c. c \<noteq> x) (rev b' @ x # rev a')" by simp
  then have "rev b = rev b'" using t [of "rev b" "rev a"] t [of "rev b'" "rev a'"] assms(1,2) by simp
  then have "b = b'" by simp
  with assms(3) show ?thesis by simp
qed

lemma keyword_shape:
  "kw \<in> set ALL_KEYWORDS \<Longrightarrow> \<exists>w. kw = CHR ''#'' # w \<and> CHR ''#'' \<notin> set w"
  by (auto simp: ALL_KEYWORDS_def KEYWORDS_defs)

lemma eventKey_inj:
  assumes "kw \<in> set ALL_KEYWORDS" and "kw' \<in> set ALL_KEYWORDS"
    and "ts @ ''-'' @ kw = ts' @ ''-'' @ kw'"
  shows "ts = ts' \<and> kw = kw'"
proof -
  from keyword_shape [OF assms(1)] obtain w where w: "kw = CHR ''#'' # w" "CHR ''#'' \<notin> set w"
    by blast
  from keyword_shape [OF assms(2)] obtain w' where w': "kw' = CHR ''#'' # w'" "CHR ''#'' \<notin> set w'"
    by blast
  from assms(3) have "(ts @ ''-'') @ CHR ''#'' # w = (ts' @ ''-'') @ CHR ''#'' # w'"
    by (simp add: w w')
  from last_occurrence_unique [OF w(2) w'(2) this] show ?thesis
    by (simp add: w w')
qed

lemma isEventProcessed_seen:
  "slackTs @ ''-'' @ keyword \<in> set processedEvents \<Longrightarrow>
   isEventProcessed processedEvents slackTs keyword = (True, processedEvents)"
  by (simp add: isEventProcessed_def)

lemma isEventProcessed_new:
  assumes "slackTs @ ''-'' @ keyword \<notin> set processedEvents"
  shows "fst (isEventProcessed processedEvents slackTs keyword) = False"
    and "slackTs @ ''-'' @ keyword \<in> set (snd (isEventProcessed processedEvents slackTs keyword))"
proof -
  let ?k = "slackTs @ ''-'' @ keyword"
  let ?added = "processedEvents @ [?k]"
  show "fst (isEventProcessed processedEvents slackTs keyword) = False"
    using assms by (simp add: isEventProcessed_def Let_def)
  have "drop (length ?added - 5000) ?added = drop (length ?added - 5000) processedEvents @ [?k]"
    by simp
  then have "?k \<in> set (drop (length ?added - 5000) ?added)"
    by (simp del: drop_append length_append)
  then show "?k \<in> set (snd (isEventProcessed processedEvents slackTs keyword))"
    using assms by (simp add: isEventProcessed_def Let_def del: drop_append)
qed

lemma isEventProcessed_keys:
  "set (snd (isEventProcessed processedEvents slackTs keyword))
     \<subseteq> insert (slackTs @ ''-'' @ keyword) (set processedEvents)"
proof -
  have "set (drop n (processedEvents @ [slackTs @ ''-'' @ keyword]))
        \<subseteq> set (processedEvents @ [slackTs @ ''-'' @ keyword])" for n
    by (rule set_drop_subset)
  then show ?thesis
    by (auto simp: isEventProcessed_def Let_def simp del: drop_append)
qed

lemma afterCalls_keys:
  "set (afterCalls processedEvents calls)
     \<subseteq> set processedEvents \<union> (\<lambda>(ts, kw). ts @ ''-'' @ kw) ` set calls"
proof (induction calls arbitrary: processedEvents)
  case Nil
  then show ?case by simp
next
  case (Cons c calls)
  obtain ts kw where c: "c = (ts, kw)" by (cases c)
  show ?case
    using Cons.IH [of "snd (isEventProcessed processedEvents ts kw)"]
          isEventProcessed_keys [of processedEvents ts kw]
    by (auto simp: c)
qed

lemma isEventProcessed_keeps:
  assumes "k \<in> set processedEvents"
    and "slackTs @ ''-'' @ keyword \<in> set processedEvents \<or> length processedEvents < 10000"
  shows "k \<in> set (snd (isEventProcessed processedEvents slackTs keyword))"
  using assms by (auto simp: isEventProcessed_def Let_def)

lemma afterCalls_keeps:
  "k \<in> set processedEvents \<Longrightarrow> noEviction processedEvents calls \<Longrightarrow>
   k \<in> set (afterCalls processedEvents calls)"
proof (induction calls arbitrary: processedEvents)
  case Nil
  then show ?case by simp
next
  case (Cons c calls)
  obtain ts kw where c: "c = (ts, kw)" by (cases c)
  from Cons.prems have
    "k \<in> set (snd (isEventProcessed processedEvents ts kw))"
    by (simp add: c isEventProcessed_keeps)
  with Cons.prems Cons.IH show ?case by (simp add: c)
qed

lemma isEventProcessed_keeps_unless_evicted:
  assumes "k \<in> set processedEvents"
    and "k \<notin> set (evictedBy processedEvents slackTs keyword)"
  shows "k \<in> set (snd (isEventProcessed processedEvents slackTs keyword))"
proof -
  let ?added = "processedEvents @ [slackTs @ ''-'' @ keyword]"
  let ?n = "length ?added - 5000"
  have "set ?added = set (take ?n ?added) \<union> set (drop ?n ?added)"
    by (metis append_take_drop_id set_append)
  with assms(1) have "k \<in> set (take ?n ?added) \<or> k \<in> set (drop ?n ?added)"
    by auto
  with assms show ?thesis
    by (auto simp: isEventProcessed_def evictedBy_def Let_def simp del: drop_append take_append
             split: if_splits)
qed

lemma afterCalls_keyKept:
  "k \<in> set processedEvents \<Longrightarrow> keyKept k processedEvents calls \<Longrightarrow>
   k \<in> set (afterCalls processedEvents calls)"
proof (induction calls arbitrary: processedEvents)
  case Nil
  then show ?case by simp
next
  case (Cons c calls)
  obtain ts kw where c: "c = (ts, kw)" by (cases c)
  from Cons.prems have
    "k \<in> set (snd (isEventProcessed processedEvents ts kw))"
    by (simp add: c isEventProcessed_keeps_unless_evicted)
  with Cons.prems Cons.IH show ?case by (simp add: c)
qed

lemma noEviction_keyKept: "noEviction processedEvents calls \<Longrightarrow> keyKept k processedEvents calls"
proof (induction calls arbitrary: processedEvents)
  case Nil
  then show ?case by simp
next
  case (Cons c calls)
  obtain ts kw where c: "c = (ts, kw)" by (cases c)
  from Cons.prems have "evictedBy processedEvents ts kw = []"
    by (auto simp: c evictedBy_def Let_def)
  with Cons.prems Cons.IH show ?case by (simp add: c)
qed

text \<open>A clean-up that runs right after a key was inserted keeps that key.\<close>

lemma duplicate_after_cleanup:
  assumes len: "length processedEvents = 9999"
    and k: "slackTs @ ''-'' @ keyword \<notin> set processedEvents"
    and k': "ts' @ ''-'' @ kw' \<notin> set processedEvents"
    and ne: "ts' @ ''-'' @ kw' \<noteq> slackTs @ ''-'' @ keyword"
  shows "\<not> noEviction (snd (isEventProcessed processedEvents slackTs keyword)) [(ts', kw')]
       \<and> evictedBy (snd (isEventProcessed processedEvents slackTs keyword)) ts' kw' \<noteq> []
       \<and> keyKept (slackTs @ ''-'' @ keyword)
            (snd (isEventProcessed processedEvents slackTs keyword)) [(ts', kw')]
       \<and> fst (isEventProcessed
                (afterCalls (snd (isEventProcessed processedEvents slackTs keyword)) [(ts', kw')])
                slackTs keyword) = True"
proof -
  let ?k = "slackTs @ ''-'' @ keyword" and ?k' = "ts' @ ''-'' @ kw'"
  let ?S1 = "processedEvents @ [?k]"
  have s1: "snd (isEventProcessed processedEvents slackTs keyword) = ?S1"
    using k len by (simp add: isEventProcessed_def Let_def)
  have new: "?k' \<notin> set ?S1" using k' ne by simp
  have len1: "length ?S1 = 10000" using len by simp
  have a: "\<not> noEviction ?S1 [(ts', kw')]" using new len1 by simp
  have ev: "evictedBy ?S1 ts' kw' = take 5001 (?S1 @ [?k'])"
    using new len1 by (simp add: evictedBy_def Let_def del: take_append)
  have "take 5001 (?S1 @ [?k']) = take 5001 processedEvents"
    using len by simp
  with ev have ev': "evictedBy ?S1 ts' kw' = take 5001 processedEvents" by simp
  have b: "evictedBy ?S1 ts' kw' \<noteq> []" using ev' len by auto
  have "?k \<notin> set (take 5001 processedEvents)"
    using k by (meson in_set_takeD)
  then have c: "keyKept ?k ?S1 [(ts', kw')]" using ev' by simp
  have "?k \<in> set ?S1" by simp
  from afterCalls_keyKept [OF this c]
  have d: "fst (isEventProcessed (afterCalls ?S1 [(ts', kw')]) slackTs keyword) = True"
    by (simp add: isEventProcessed_seen)
  from a b c d show ?thesis unfolding s1 by (intro conjI)
qed

text \<open>
  Claim C7. Start from the empty set and make any calls with keywords of the vocabulary.
  A call with a pair \<open>(slackTs, keyword)\<close> not used before returns false and leaves the
  key of the pair in the set. After any further calls whose clean-ups do not remove
  that key, a call with the same pair returns true; clean-ups that remove other keys
  may have run in between.
\<close>

theorem isEventProcessed_first_then_duplicate:
  assumes kw: "keyword \<in> set ALL_KEYWORDS"
    and before: "\<forall>(ts, kw) \<in> set before. kw \<in> set ALL_KEYWORDS"
    and first: "(slackTs, keyword) \<notin> set before"
    and kept: "keyKept (slackTs @ ''-'' @ keyword)
                 (snd (isEventProcessed (afterCalls [] before) slackTs keyword)) between"
  shows "fst (isEventProcessed (afterCalls [] before) slackTs keyword) = False
       \<and> slackTs @ ''-'' @ keyword
           \<in> set (snd (isEventProcessed (afterCalls [] before) slackTs keyword))
       \<and> fst (isEventProcessed
                (afterCalls (snd (isEventProcessed (afterCalls [] before) slackTs keyword)) between)
                slackTs keyword) = True"
proof -
  let ?k = "slackTs @ ''-'' @ keyword"
  let ?S = "afterCalls [] before"
  have "?k \<notin> set ?S"
  proof
    assume "?k \<in> set ?S"
    with afterCalls_keys [of "[]" before]
    obtain ts' kw' where m: "(ts', kw') \<in> set before" and e: "?k = ts' @ ''-'' @ kw'"
      by auto
    from before m have "kw' \<in> set ALL_KEYWORDS" by auto
    from eventKey_inj [OF kw this e] have "slackTs = ts'" "keyword = kw'" by simp_all
    with m first show False by simp
  qed
  then have a: "fst (isEventProcessed ?S slackTs keyword) = False"
    and b: "?k \<in> set (snd (isEventProcessed ?S slackTs keyword))"
    by (rule isEventProcessed_new)+
  from afterCalls_keyKept [OF b kept]
  have "fst (isEventProcessed
                (afterCalls (snd (isEventProcessed ?S slackTs keyword)) between)
                slackTs keyword) = True"
    by (simp add: isEventProcessed_seen)
  with a b show ?thesis by blast
qed

theorem isEventProcessed_first_then_duplicate_witness:
  "isEventProcessed [''1700000000.000100-#entry''] ''1700000000.000200'' EXIT
       = (False, [''1700000000.000100-#entry'', ''1700000000.000200-#exit''])
   \<and> fst (isEventProcessed
            (afterCalls [''1700000000.000100-#entry'', ''1700000000.000200-#exit'']
               [(''1700000000.000300'', LUNCH_START), (''1700000000.000200'', EXIT)])
            ''1700000000.000200'' EXIT) = True"
proof -
  let ?before = "[(''1700000000.000100'', ENTRY)]"
  let ?between = "[(''1700000000.000300'', LUNCH_START), (''1700000000.000200'', EXIT)]"
  have s0: "afterCalls [] ?before = [''1700000000.000100-#entry'']"
    by (simp add: isEventProcessed_def ENTRY_def)
  have s1: "isEventProcessed [''1700000000.000100-#entry''] ''1700000000.000200'' EXIT
       = (False, [''1700000000.000100-#entry'', ''1700000000.000200-#exit''])"
    by (simp add: isEventProcessed_def EXIT_def)
  have h1: "EXIT \<in> set ALL_KEYWORDS" by (simp add: ALL_KEYWORDS_def)
  have h2: "\<forall>(ts, kw) \<in> set ?before. kw \<in> set ALL_KEYWORDS" by (simp add: ALL_KEYWORDS_def)
  have h3: "(''1700000000.000200'', EXIT) \<notin> set ?before" by simp
  have h4: "keyKept (''1700000000.000200'' @ ''-'' @ EXIT)
              (snd (isEventProcessed (afterCalls [] ?before) ''1700000000.000200'' EXIT))
              ?between"
    unfolding s0 s1 by (simp add: isEventProcessed_def evictedBy_def KEYWORDS_defs)
  from isEventProcessed_first_then_duplicate [OF h1 h2 h3 h4]
  have "fst (isEventProcessed
                (afterCalls (snd (isEventProcessed (afterCalls [] ?before) ''1700000000.000200'' EXIT)) ?between)
                ''1700000000.000200'' EXIT) = True" by (elim conjE)
  then have "fst (isEventProcessed
            (afterCalls [''1700000000.000100-#entry'', ''1700000000.000200-#exit''] ?between)
            ''1700000000.000200'' EXIT) = True"
    unfolding s0 s1 by simp
  with s1 show ?thesis by (intro conjI)
qed

section \<open>A day without events of the employee\<close>

text \<open>
  Claim C10. When the logs stored for the date hold no row of the employee,
  \<open>updateDailySummary\<close> returns \<open>null\<close> and leaves the spreadsheet as it was: no summary
  row is written.
\<close>

theorem updateDailySummary_no_events:
  "\<forall>log \<in> set (getDailyLogs sh d). logEmployeeName log \<noteq> emp \<Longrightarrow>
   updateDailySummary sh d emp = (None, sh)"
proof -
  assume "\<forall>log \<in> set (getDailyLogs sh d). logEmployeeName log \<noteq> emp"
  then have "filter (\<lambda>log. logEmployeeName log = emp) (getDailyLogs sh d) = []"
    by (simp add: filter_empty_conv)
  then show ?thesis by (simp add: updateDailySummary_def)
qed

theorem updateDailySummary_no_events_witness:
  "updateDailySummary
        \<lparr>raw_logs = [Row ''Date'' ''Time'' ''Employee Name'' ''Channel Name'' ''Keyword'',
                     Row ''2024-01-15'' ''09:00:00'' ''Asha'' ''team'' ENTRY],
         daily_summary = []\<rparr> ''2024-01-15'' ''Ravi''
       = (None,
          \<lparr>raw_logs = [Row ''Date'' ''Time'' ''Employee Name'' ''Channel Name'' ''Keyword'',
                       Row ''2024-01-15'' ''09:00:00'' ''Asha'' ''team'' ENTRY],
           daily_summary = []\<rparr>)"
proof -
  let ?sh = "\<lparr>raw_logs = [Row ''Date'' ''Time'' ''Employee Name'' ''Channel Name'' ''Keyword'',
                     Row ''2024-01-15'' ''09:00:00'' ''Asha'' ''team'' ENTRY],
         daily_summary = []\<rparr>"
  have h: "\<forall>log \<in> set (getDailyLogs ?sh ''2024-01-15''). logEmployeeName log \<noteq> ''Ravi''"
    by (simp add: getDailyLogs_def)
  from updateDailySummary_no_events [OF h] show ?thesis .
qed

section \<open>Sorting by time\<close>

lemma mset_insertBy: "mset (insertBy cmp x ys) = add_mset x (mset ys)"
  by (induction ys) auto

lemma mset_sortBy: "mset (sortBy cmp xs) = mset xs"
  by (induction xs) (simp_all add: sortBy_def mset_insertBy)

lemma set_sortBy: "set (sortBy cmp xs) = set xs"
  using mset_sortBy [of cmp xs] by (metis set_mset_mset)

lemma insertBy_insort_key:
  "\<forall>y \<in> set ys. cmp x y = Num (f x - f y) \<Longrightarrow> insertBy cmp x ys = insort_key f x ys"
  by (induction ys) auto

lemma sortBy_sort_key:
  "\<forall>x \<in> set xs. \<forall>y \<in> set xs. cmp x y = Num (f x - f y) \<Longrightarrow> sortBy cmp xs = sort_key f xs"
proof (induction xs)
  case Nil
  then show ?case by (simp add: sortBy_def)
next
  case (Cons x xs)
  then have IH: "sortBy cmp xs = sort_key f xs" by simp
  have "insertBy cmp x (sort_key f xs) = insort_key f x (sort_key f xs)"
    using Cons.prems by (intro insertBy_insort_key) simp
  then show ?case using IH by (simp add: sortBy_def)
qed

lemma timesParse_Num:
  "timesParse logs \<Longrightarrow> log \<in> set logs \<Longrightarrow> timeToMinutes (logTime log) = Num (rowMinutes log)"
  by (cases "timeToMinutes (logTime log)")
     (auto simp: timesParse_def list_all_iff rowMinutes_def theMinutes_def)

lemma sortByTime_sort_key:
  assumes "timesParse logs"
  shows "sortByTime logs = sort_key rowMinutes logs"
  unfolding sortByTime_def
  by (rule sortBy_sort_key) (simp add: timesParse_Num [OF assms] Let_def)

lemma mset_sortByTime: "mset (sortByTime logs) = mset logs"
  by (simp add: sortByTime_def mset_sortBy)

lemma set_sortByTime: "set (sortByTime logs) = set logs"
  by (simp add: sortByTime_def set_sortBy)

lemma timesParse_sortByTime: "timesParse (sortByTime logs) = timesParse logs"
  by (simp add: timesParse_def list_all_iff set_sortByTime)

lemma map_sort_key: "map f (sort_key f xs) = sort (map f xs)"
  by (rule properties_for_sort [symmetric]) simp_all

lemma sort_cong_mset: "mset xs = mset ys \<Longrightarrow> sort xs = sort ys"
  by (rule properties_for_sort) simp_all

lemma minutesOf_parse:
  "timesParse logs \<Longrightarrow>
   minutesOf kw logs = map rowMinutes (filter (\<lambda>log. logKeyword log = kw) logs)"
proof (induction logs)
  case Nil
  then show ?case by (simp add: minutesOf_def)
next
  case (Cons l logs)
  then have p: "timesParse logs" by (simp add: timesParse_def)
  have "timeToMinutes (logTime l) = Num (rowMinutes l)"
    using timesParse_Num [OF Cons.prems, of l] by simp
  then show ?case using Cons.IH [OF p] by (simp add: minutesOf_def)
qed

lemma mset_minutesOf:
  "mset logs' = mset logs \<Longrightarrow> mset (minutesOf kw logs') = mset (minutesOf kw logs)"
proof -
  have "mset (minutesOf kw xs) =
        image_mset rowMinutes
          (filter_mset (\<lambda>log. logKeyword log = kw \<and> \<not> isNaN (timeToMinutes (logTime log))) (mset xs))"
    for xs
  proof (induction xs)
    case Nil
    then show ?case by (simp add: minutesOf_def)
  next
    case (Cons l xs)
    then show ?case
      by (cases "timeToMinutes (logTime l)")
         (auto simp: minutesOf_def rowMinutes_def theMinutes_def)
  qed
  then show "mset logs' = mset logs \<Longrightarrow> mset (minutesOf kw logs') = mset (minutesOf kw logs)"
    by simp
qed

text \<open>The sorted break events carry the sorted minutes.\<close>

lemma breakEvents_minutes:
  assumes "timesParse logs"
  shows "map snd (breakEvents kw (sortByTime logs)) = map Num (sort (minutesOf kw logs))"
proof -
  let ?S = "sortByTime logs"
  let ?zs = "map (\<lambda>log. (logTime log, timeToMinutes (logTime log)))
               (filter (\<lambda>log. logKeyword log = kw) ?S)"
  let ?f = "\<lambda>p :: string \<times> jsnum. theMinutes (snd p)"
  have pS: "timesParse ?S" using assms by (simp add: timesParse_sortByTime)
  have ex: "\<exists>n. snd p = Num n" if "p \<in> set ?zs" for p
  proof -
    from that obtain l where "l \<in> set ?S" and "p = (logTime l, timeToMinutes (logTime l))"
      by auto
    with timesParse_Num [OF pS, of l] show ?thesis by simp
  qed
  have num: "Num (?f p) = snd p" if "p \<in> set ?zs" for p
    using ex [OF that] by (auto simp: theMinutes_def)
  have cmp: "js_sub (snd x) (snd y) = Num (?f x - ?f y)" if "x \<in> set ?zs" "y \<in> set ?zs" for x y
    using ex [OF that(1)] ex [OF that(2)] by (auto simp: theMinutes_def)
  have be: "breakEvents kw ?S = sort_key ?f ?zs"
    unfolding breakEvents_def
    by (rule sortBy_sort_key) (use cmp in blast)
  have "map Num (map ?f (sort_key ?f ?zs)) = map (\<lambda>p. Num (?f p)) (sort_key ?f ?zs)"
    by simp
  also have "\<dots> = map snd (sort_key ?f ?zs)"
    by (rule map_cong [OF refl]) (simp only: set_sort num)
  finally have m1: "map snd (sort_key ?f ?zs) = map Num (map ?f (sort_key ?f ?zs))" by simp
  have m2: "map ?f (sort_key ?f ?zs) = sort (map ?f ?zs)" by (rule map_sort_key)
  have "map ?f ?zs = map rowMinutes (filter (\<lambda>log. logKeyword log = kw) ?S)"
    by (simp add: rowMinutes_def comp_def)
  also have "\<dots> = minutesOf kw ?S" using minutesOf_parse [OF pS] by simp
  finally have m3: "map ?f ?zs = minutesOf kw ?S" .
  have m4: "sort (minutesOf kw ?S) = sort (minutesOf kw logs)"
    by (rule sort_cong_mset) (rule mset_minutesOf, rule mset_sortByTime)
  show ?thesis
    by (simp only: be m1 m2 m3 m4)
qed

section \<open>Break pairing\<close>

lemma findBreakEnd_None:
  assumes "map snd breakEnds = map Num es"
    and "findBreakEnd breakEnds usedEnds (Num s) i = None"
    and "i \<le> j" and "j < length es"
  shows "j \<in> usedEnds \<or> \<not> s < es ! j"
  using assms
proof (induction breakEnds usedEnds "Num s" i rule: findBreakEnd.induct)
  case (1 breakEnds usedEnds i)
  from "1.prems"(1) have len: "length breakEnds = length es"
    by (metis length_map)
  with "1.prems" have i: "i < length breakEnds" by simp
  have nth: "snd (breakEnds ! i) = Num (es ! i)"
    using "1.prems"(1) i len by (metis nth_map)
  from "1.prems"(2) i have
    here: "i \<in> usedEnds \<or> \<not> s < es ! i"
    and rest: "findBreakEnd breakEnds usedEnds (Num s) (i + 1) = None"
    by (auto simp: findBreakEnd.simps [of breakEnds usedEnds "Num s" i] nth split: if_splits)
  show ?case
  proof (cases "j = i")
    case True
    with here show ?thesis by simp
  next
    case False
    with "1.prems"(3) have "i + 1 \<le> j" by simp
    from "1.hyps" [OF i _ "1.prems"(1) rest this "1.prems"(4)] here nth
    show ?thesis by auto
  qed
qed

lemma findBreakEnd_Some:
  assumes "map snd breakEnds = map Num es"
    and "findBreakEnd breakEnds usedEnds (Num s) i = Some j"
  shows "i \<le> j \<and> j < length es \<and> j \<notin> usedEnds \<and> s < es ! j
       \<and> (\<forall>k. i \<le> k \<and> k < j \<longrightarrow> k \<in> usedEnds \<or> \<not> s < es ! k)"
  using assms
proof (induction breakEnds usedEnds "Num s" i rule: findBreakEnd.induct)
  case (1 breakEnds usedEnds i)
  from "1.prems"(1) have len: "length breakEnds = length es"
    by (metis length_map)
  from "1.prems"(2) have i: "i < length breakEnds"
    by (auto simp: findBreakEnd.simps [of breakEnds usedEnds "Num s" i] split: if_splits)
  have nth: "snd (breakEnds ! i) = Num (es ! i)"
    using "1.prems"(1) i len by (metis nth_map)
  show ?case
  proof (cases "i \<notin> usedEnds \<and> s < es ! i")
    case True
    with "1.prems"(2) i nth have "j = i"
      by (simp add: findBreakEnd.simps [of breakEnds usedEnds "Num s" i])
    with True i len show ?thesis by auto
  next
    case False
    with "1.prems"(2) i nth have rest: "findBreakEnd breakEnds usedEnds (Num s) (i + 1) = Some j"
      by (auto simp: findBreakEnd.simps [of breakEnds usedEnds "Num s" i])
    from False nth have c: "\<not> (i \<notin> usedEnds \<and> js_gt (snd (breakEnds ! i)) (Num s))" by simp
    from "1.hyps" [OF i c "1.prems"(1) rest]
    have IH: "i + 1 \<le> j \<and> j < length es \<and> j \<notin> usedEnds \<and> s < es ! j
       \<and> (\<forall>k. i + 1 \<le> k \<and> k < j \<longrightarrow> k \<in> usedEnds \<or> \<not> s < es ! k)" .
    have "k \<in> usedEnds \<or> \<not> s < es ! k" if "i \<le> k" "k < j" for k
    proof (cases "k = i")
      case True
      with False show ?thesis by simp
    next
      case False
      with that have "i + 1 \<le> k" by simp
      with IH that show ?thesis by blast
    qed
    with IH show ?thesis by auto
  qed
qed


text \<open>The break ends not yet used, as a multiset.\<close>

lemma unused_after_match:
  assumes "j < length es" and "j \<notin> used"
    and "mset U = image_mset ((!) es) (mset_set ({..<length es} - used))"
  shows "mset (remove1 (es ! j) U)
         = image_mset ((!) es) (mset_set ({..<length es} - insert j used))"
proof -
  let ?A = "{..<length es} - used"
  have fin: "finite ?A" by simp
  have jA: "j \<in> ?A" using assms(1,2) by simp
  have eq: "{..<length es} - insert j used = ?A - {j}" by auto
  have "mset_set ?A = add_mset j (mset_set (?A - {j}))"
    using fin jA by (simp add: mset_set.remove)
  then have "image_mset ((!) es) (mset_set ?A)
             = add_mset (es ! j) (image_mset ((!) es) (mset_set (?A - {j})))"
    by simp
  with assms(3) have "mset U = add_mset (es ! j) (image_mset ((!) es) (mset_set (?A - {j})))"
    by simp
  then have "mset U - {#es ! j#} = image_mset ((!) es) (mset_set (?A - {j}))"
    by simp
  then show ?thesis by (simp add: eq)
qed

lemma set_unused:
  assumes "mset U = image_mset ((!) es) (mset_set ({..<length es} - used))"
  shows "set U = (!) es ` ({..<length es} - used)"
proof -
  have "set U = set_mset (mset U)" by simp
  also have "\<dots> = (!) es ` ({..<length es} - used)"
    by (simp only: assms set_image_mset) simp
  finally show ?thesis .
qed

lemma matchBreaks_greedy:
  assumes "map snd breakEnds = map Num es" and "sorted es"
    and "map snd starts = map Num ss"
    and "mset U = image_mset ((!) es) (mset_set ({..<length es} - used))"
  shows "fst (matchBreaks breakEnds starts (Num t, used)) = Num (t + pairMinutes (greedyPairs ss U))"
  using assms(3,4)
proof (induction starts arbitrary: ss t used U)
  case Nil
  then show ?case by (simp add: pairMinutes_def)
next
  case (Cons start starts)
  from Cons.prems(1) obtain s ss' where ss: "ss = s # ss'" and s: "snd start = Num s"
    and rest: "map snd starts = map Num ss'"
    by (cases ss) auto
  note U = Cons.prems(2)
  have setU: "set U = (!) es ` ({..<length es} - used)" by (rule set_unused [OF U])
  show ?case
  proof (cases "findBreakEnd breakEnds used (Num s) 0")
    case None
    have "\<not> s < e" if "e \<in> set U" for e
    proof -
      from that setU obtain j where j: "j < length es" "j \<notin> used" "e = es ! j" by auto
      from findBreakEnd_None [OF assms(1) None _ j(1)] j show ?thesis by simp
    qed
    then have "filter (\<lambda>e. s < e) U = []" by (simp add: filter_empty_conv)
    then have g: "greedyPairs ss U = greedyPairs ss' U" by (simp add: ss)
    from Cons.IH [OF rest U, of t] None s g show ?thesis by simp
  next
    case (Some j)
    from findBreakEnd_Some [OF assms(1) Some]
    have j: "j < length es" "j \<notin> used" "s < es ! j"
      and first: "\<And>k. k < j \<Longrightarrow> k \<in> used \<or> \<not> s < es ! k"
      by auto
    let ?later = "filter (\<lambda>e. s < e) U"
    have inU: "es ! j \<in> set U" using setU j by auto
    then have mem: "es ! j \<in> set ?later" using j by simp
    then have ne: "?later \<noteq> []" by (metis empty_iff list.set(1))
    have least: "es ! j \<le> e" if "e \<in> set ?later" for e
    proof -
      from that setU obtain k where k: "k < length es" "k \<notin> used" "e = es ! k" "s < es ! k"
        by auto
      with first [of k] have "j \<le> k" by (meson not_le)
      with assms(2) k(1) show ?thesis
        by (simp add: k(3) sorted_nth_mono)
    qed
    have Min: "Min (set ?later) = es ! j"
      by (rule Min_eqI) (use mem least in auto)
    have g: "greedyPairs ss U = (s, es ! j) # greedyPairs ss' (remove1 (es ! j) U)"
      using ne Min by (simp add: ss Let_def)
    have nth: "snd (breakEnds ! j) = Num (es ! j)"
      using assms(1) j(1) by (metis length_map nth_map)
    from Cons.IH [OF rest unused_after_match [OF j(1,2) U], of "t + (es ! j - s)"]
    show ?thesis
      using Some s nth by (simp add: g pairMinutes_def)
  qed
qed

lemma mset_all_unused: "mset es = image_mset ((!) es) (mset_set ({..<length es} - {}))"
proof -
  have "mset_set {..<length es} = mset [0..<length es]"
    by (simp add: lessThan_atLeast0 mset_upt)
  then have "image_mset ((!) es) (mset_set {..<length es}) = mset (map ((!) es) [0..<length es])"
    by simp
  then show ?thesis by (simp add: map_nth)
qed

lemma calculateBreakDuration_greedy:
  assumes "timesParse logs"
  shows "calculateBreakDuration (sortByTime logs) = Num (pairMinutes (greedyBreakPairs logs))"
proof -
  let ?es = "sort (minutesOf BREAK_END logs)"
  let ?ss = "sort (minutesOf BREAK_START logs)"
  have "fst (matchBreaks (breakEvents BREAK_END (sortByTime logs))
               (breakEvents BREAK_START (sortByTime logs)) (Num 0, {}))
        = Num (0 + pairMinutes (greedyPairs ?ss ?es))"
    by (rule matchBreaks_greedy [where es = ?es])
       (simp_all only: breakEvents_minutes [OF assms] sorted_sort mset_all_unused [symmetric])
  then show ?thesis
    by (simp add: calculateBreakDuration_def greedyBreakPairs_def Let_def)
qed

section \<open>First and last event of a keyword\<close>

lemma find_filter: "find P xs = (case filter P xs of [] \<Rightarrow> None | x # _ \<Rightarrow> Some x)"
  by (induction xs) auto

lemma minutesOf_Nil_iff:
  "timesParse logs \<Longrightarrow> minutesOf kw logs = [] \<longleftrightarrow> (\<forall>log \<in> set logs. logKeyword log \<noteq> kw)"
  by (simp add: minutesOf_parse filter_empty_conv)

lemma firstTime_none:
  "\<forall>log \<in> set logs. logKeyword log \<noteq> kw \<Longrightarrow> firstTime kw (sortByTime logs) = ''-''"
proof -
  assume "\<forall>log \<in> set logs. logKeyword log \<noteq> kw"
  then have "filter (\<lambda>log. logKeyword log = kw) (sortByTime logs) = []"
    by (simp add: filter_empty_conv set_sortByTime)
  then show ?thesis by (simp add: firstTime_def find_filter)
qed

lemma lastTime_none:
  "\<forall>log \<in> set logs. logKeyword log \<noteq> kw \<Longrightarrow> lastTime kw (sortByTime logs) = ''-''"
proof -
  assume "\<forall>log \<in> set logs. logKeyword log \<noteq> kw"
  then have "filter (\<lambda>log. logKeyword log = kw) (sortByTime logs) = []"
    by (simp add: filter_empty_conv set_sortByTime)
  then show ?thesis by (simp add: lastTime_def)
qed

lemma filter_sortByTime:
  assumes "timesParse logs"
  shows "filter P (sortByTime logs) = sort_key rowMinutes (filter P logs)"
  by (simp add: sortByTime_sort_key [OF assms] filter_sort)

lemma sorted_hd_Min:
  assumes "sorted (map f ys)" and "ys \<noteq> []"
  shows "f (hd ys) = Min (f ` set ys)"
proof -
  from assms(2) obtain y ys' where ys: "ys = y # ys'" by (cases ys) auto
  with assms(1) have "\<forall>z \<in> set ys. f y \<le> f z" by auto
  then have "Min (f ` set ys) = f y"
    by (intro Min_eqI) (auto simp: ys)
  then show ?thesis by (simp add: ys)
qed

lemma sorted_last_Max:
  assumes "sorted (map f ys)" and "ys \<noteq> []"
  shows "f (last ys) = Max (f ` set ys)"
proof -
  from assms(2) obtain ys' y where ys: "ys = ys' @ [y]" by (metis rev_exhaust)
  with assms(1) have "\<forall>z \<in> set ys. f z \<le> f y" by (auto simp: sorted_append)
  then have "Max (f ` set ys) = f y"
    by (intro Max_eqI) (auto simp: ys)
  then show ?thesis by (simp add: ys)
qed

lemma find_sortByTime_some:
  assumes "timesParse logs" and "\<exists>log \<in> set logs. logKeyword log = kw"
  shows "\<exists>l \<in> set logs. logKeyword l = kw
           \<and> find (\<lambda>log. logKeyword log = kw) (sortByTime logs) = Some l
           \<and> rowMinutes l = Min (set (minutesOf kw logs))"
proof -
  let ?zs = "filter (\<lambda>log. logKeyword log = kw) logs"
  let ?ys = "sort_key rowMinutes ?zs"
  from assms(2) have "?zs \<noteq> []" by (simp add: filter_empty_conv)
  then have ne: "?ys \<noteq> []" by (metis length_0_conv length_sort)
  then obtain y ys' where ys: "?ys = y # ys'" by (cases ?ys) auto
  have "y \<in> set ?ys" by (simp add: ys)
  then have y: "y \<in> set logs" "logKeyword y = kw" by simp_all
  have "rowMinutes (hd ?ys) = Min (rowMinutes ` set ?ys)"
    by (rule sorted_hd_Min [OF _ ne]) simp
  then have m: "rowMinutes y = Min (set (minutesOf kw logs))"
    by (simp add: ys [symmetric] minutesOf_parse [OF assms(1)] del: set_filter)
       (simp add: ys)
  have "find (\<lambda>log. logKeyword log = kw) (sortByTime logs) = Some y"
    by (simp add: find_filter filter_sortByTime [OF assms(1)] ys)
  with y m show ?thesis by blast
qed

lemma find_sortByTime_none:
  "\<forall>log \<in> set logs. logKeyword log \<noteq> kw \<Longrightarrow>
   find (\<lambda>log. logKeyword log = kw) (sortByTime logs) = None"
  by (simp add: find_None_iff set_sortByTime)

lemma firstTime_some:
  assumes "timesParse logs" and "\<exists>log \<in> set logs. logKeyword log = kw"
  shows "\<exists>l \<in> set logs. logKeyword l = kw \<and> firstTime kw (sortByTime logs) = logTime l
           \<and> rowMinutes l = Min (set (minutesOf kw logs))"
proof -
  from find_sortByTime_some [OF assms] obtain l where l: "l \<in> set logs" "logKeyword l = kw"
    "find (\<lambda>log. logKeyword log = kw) (sortByTime logs) = Some l"
    "rowMinutes l = Min (set (minutesOf kw logs))" by blast
  from l(3) have "firstTime kw (sortByTime logs) = logTime l"
    by (simp add: firstTime_def)
  with l show ?thesis by blast
qed

lemma lastTime_some:
  assumes "timesParse logs" and "\<exists>log \<in> set logs. logKeyword log = kw"
  shows "\<exists>l \<in> set logs. logKeyword l = kw \<and> lastTime kw (sortByTime logs) = logTime l
           \<and> rowMinutes l = Max (set (minutesOf kw logs))"
proof -
  let ?zs = "filter (\<lambda>log. logKeyword log = kw) logs"
  let ?ys = "sort_key rowMinutes ?zs"
  from assms(2) have "?zs \<noteq> []" by (simp add: filter_empty_conv)
  then have ne: "?ys \<noteq> []" by (metis length_0_conv length_sort)
  have "last ?ys \<in> set ?ys" using ne by (rule last_in_set)
  then have y: "last ?ys \<in> set logs" "logKeyword (last ?ys) = kw" by simp_all
  have "rowMinutes (last ?ys) = Max (rowMinutes ` set ?ys)"
    by (rule sorted_last_Max [OF _ ne]) simp
  then have m: "rowMinutes (last ?ys) = Max (set (minutesOf kw logs))"
    by (simp add: minutesOf_parse [OF assms(1)] del: set_filter)
  have "?ys ! (length ?ys - 1) = last ?ys" using ne by (simp add: last_conv_nth)
  then have "lastTime kw (sortByTime logs) = logTime (last ?ys)"
    using ne by (simp add: lastTime_def filter_sortByTime [OF assms(1)] Let_def)
  with y m show ?thesis by blast
qed

section \<open>Break minutes\<close>

lemma timesParse_mset: "mset logs' = mset logs \<Longrightarrow> timesParse logs' = timesParse logs"
  by (simp add: timesParse_def list_all_iff) (metis set_mset_mset)

lemma greedyBreakPairs_mset: "mset logs' = mset logs \<Longrightarrow> greedyBreakPairs logs' = greedyBreakPairs logs"
  using sort_cong_mset [OF mset_minutesOf [of logs' logs BREAK_START]]
        sort_cong_mset [OF mset_minutesOf [of logs' logs BREAK_END]]
  by (simp add: greedyBreakPairs_def)

lemma example_times:
  "timeToMinutes ''09:00:00'' = Num 540" "timeToMinutes ''09:20:00'' = Num 560"
  "timeToMinutes ''09:30:00'' = Num 570" "timeToMinutes ''09:45:00'' = Num 585"
  by code_simp+

lemma keyword_neq: "BREAK_START \<noteq> BREAK_END" "BREAK_END \<noteq> BREAK_START"
  by (simp_all add: KEYWORDS_defs)

lemma example_starts:
  "minutesOf BREAK_START
     [Row d ''09:00:00'' e c BREAK_START, Row d ''09:30:00'' e c BREAK_START,
      Row d ''09:20:00'' e c BREAK_END, Row d ''09:45:00'' e c BREAK_END] = [540, 570]"
  by (simp add: minutesOf_def example_times keyword_neq)

lemma example_ends:
  "minutesOf BREAK_END
     [Row d ''09:00:00'' e c BREAK_START, Row d ''09:30:00'' e c BREAK_START,
      Row d ''09:20:00'' e c BREAK_END, Row d ''09:45:00'' e c BREAK_END] = [560, 585]"
  by (simp add: minutesOf_def example_times keyword_neq)

lemma example_greedy: "greedyPairs [540, 570] [560, 585] = [(540, 560), (570, 585)]"
  by simp

lemma example_pairs:
  "greedyBreakPairs
     [Row d ''09:00:00'' e c BREAK_START, Row d ''09:30:00'' e c BREAK_START,
      Row d ''09:20:00'' e c BREAK_END, Row d ''09:45:00'' e c BREAK_END]
   = [(540, 560), (570, 585)]"
  unfolding greedyBreakPairs_def example_starts example_ends
  by (simp only: sort_key_simps insort_key.simps id_apply example_greedy) simp

text \<open>
  Claim C1. For the events of one employee and day, in any order, the break minutes
  computed by \<open>calculateBreakDuration\<close> are the minutes of the greedy pairing: break
  starts and break ends sorted ascending, each start in ascending order paired with
  the earliest unused end strictly later than it, a pair counting end minus start and
  an unpaired start counting nothing. Hence every reordering of the events gives the same
  total; starts at 09:00 and 09:30 with ends at 09:20 and 09:45 give 35 in every order.
\<close>

theorem break_minutes_greedy:
  assumes "timesParse userLogs"
  shows "calculateBreakDuration (sortByTime userLogs) = Num (pairMinutes (greedyBreakPairs userLogs))
       \<and> (\<forall>logs'. mset logs' = mset userLogs \<longrightarrow>
             calculateBreakDuration (sortByTime logs') = calculateBreakDuration (sortByTime userLogs))
       \<and> (mset userLogs =
            mset [Row d ''09:00:00'' e c BREAK_START, Row d ''09:30:00'' e c BREAK_START,
                  Row d ''09:20:00'' e c BREAK_END, Row d ''09:45:00'' e c BREAK_END] \<longrightarrow>
            calculateBreakDuration (sortByTime userLogs) = Num 35)"
proof -
  have a: "calculateBreakDuration (sortByTime userLogs) = Num (pairMinutes (greedyBreakPairs userLogs))"
    by (rule calculateBreakDuration_greedy [OF assms])
  have b: "calculateBreakDuration (sortByTime logs') = calculateBreakDuration (sortByTime userLogs)"
    if "mset logs' = mset userLogs" for logs'
  proof -
    from timesParse_mset [OF that] assms have "timesParse logs'" by simp
    then have "calculateBreakDuration (sortByTime logs') = Num (pairMinutes (greedyBreakPairs logs'))"
      by (rule calculateBreakDuration_greedy)
    then show ?thesis
      by (simp only: a greedyBreakPairs_mset [OF that])
  qed
  have c: "calculateBreakDuration (sortByTime userLogs) = Num 35"
    if "mset userLogs =
            mset [Row d ''09:00:00'' e c BREAK_START, Row d ''09:30:00'' e c BREAK_START,
                  Row d ''09:20:00'' e c BREAK_END, Row d ''09:45:00'' e c BREAK_END]"
  proof -
    have "greedyBreakPairs userLogs = [(540, 560), (570, 585)]"
      by (simp only: greedyBreakPairs_mset [OF that] example_pairs)
    then show ?thesis by (simp add: a pairMinutes_def)
  qed
  from a b c show ?thesis by blast
qed

theorem break_minutes_greedy_witness:
  "timesParse
     [Row ''2024-01-15'' ''09:30:00'' ''Asha'' ''team'' BREAK_START,
      Row ''2024-01-15'' ''09:45:00'' ''Asha'' ''team'' BREAK_END,
      Row ''2024-01-15'' ''09:20:00'' ''Asha'' ''team'' BREAK_END,
      Row ''2024-01-15'' ''09:00:00'' ''Asha'' ''team'' BREAK_START]
   \<and> calculateBreakDuration (sortByTime
     [Row ''2024-01-15'' ''09:30:00'' ''Asha'' ''team'' BREAK_START,
      Row ''2024-01-15'' ''09:45:00'' ''Asha'' ''team'' BREAK_END,
      Row ''2024-01-15'' ''09:20:00'' ''Asha'' ''team'' BREAK_END,
      Row ''2024-01-15'' ''09:00:00'' ''Asha'' ''team'' BREAK_START]) = Num 35"
proof -
  let ?logs = "[Row ''2024-01-15'' ''09:30:00'' ''Asha'' ''team'' BREAK_START,
      Row ''2024-01-15'' ''09:45:00'' ''Asha'' ''team'' BREAK_END,
      Row ''2024-01-15'' ''09:20:00'' ''Asha'' ''team'' BREAK_END,
      Row ''2024-01-15'' ''09:00:00'' ''Asha'' ''team'' BREAK_START]"
  have p: "timesParse ?logs" by (simp add: timesParse_def example_times)
  have m: "mset ?logs =
            mset [Row ''2024-01-15'' ''09:00:00'' ''Asha'' ''team'' BREAK_START,
                  Row ''2024-01-15'' ''09:30:00'' ''Asha'' ''team'' BREAK_START,
                  Row ''2024-01-15'' ''09:20:00'' ''Asha'' ''team'' BREAK_END,
                  Row ''2024-01-15'' ''09:45:00'' ''Asha'' ''team'' BREAK_END]"
    by simp
  from break_minutes_greedy [OF p, of "''2024-01-15''" "''Asha''" "''team''"] m
  have "calculateBreakDuration (sortByTime ?logs) = Num 35" by blast
  with p show ?thesis by blast
qed

section \<open>Lunch\<close>

lemma calculateLunchDuration_none:
  assumes "find (\<lambda>log. logKeyword log = LUNCH_START) S = None
         \<or> find (\<lambda>log. logKeyword log = LUNCH_END) S = None"
  shows "calculateLunchDuration S = Num 0"
proof (cases "find (\<lambda>log. logKeyword log = LUNCH_START) S")
  case None
  then show ?thesis by (simp add: calculateLunchDuration_def)
next
  case (Some ls)
  with assms have "find (\<lambda>log. logKeyword log = LUNCH_END) S = None" by simp
  with Some show ?thesis by (simp add: calculateLunchDuration_def)
qed

lemma calculateLunchDuration_some:
  assumes "find (\<lambda>log. logKeyword log = LUNCH_START) S = Some ls"
    and "find (\<lambda>log. logKeyword log = LUNCH_END) S = Some le"
    and "timeToMinutes (logTime ls) = Num a" and "timeToMinutes (logTime le) = Num b"
  shows "calculateLunchDuration S = Num (max 0 (b - a))"
  using assms by (simp add: calculateLunchDuration_def)

lemma calculateLunchDuration_earliest:
  assumes "timesParse userLogs"
  shows "calculateLunchDuration (sortByTime userLogs) =
           Num (if (\<forall>log \<in> set userLogs. logKeyword log \<noteq> LUNCH_START)
                   \<or> (\<forall>log \<in> set userLogs. logKeyword log \<noteq> LUNCH_END) then 0
                else max 0 (Min (set (minutesOf LUNCH_END userLogs))
                            - Min (set (minutesOf LUNCH_START userLogs))))"
proof (cases "(\<forall>log \<in> set userLogs. logKeyword log \<noteq> LUNCH_START)
                   \<or> (\<forall>log \<in> set userLogs. logKeyword log \<noteq> LUNCH_END)")
  case True
  then have "find (\<lambda>log. logKeyword log = LUNCH_START) (sortByTime userLogs) = None
           \<or> find (\<lambda>log. logKeyword log = LUNCH_END) (sortByTime userLogs) = None"
    by (rule disjE) (simp_all add: find_sortByTime_none)
  then have "calculateLunchDuration (sortByTime userLogs) = Num 0"
    by (rule calculateLunchDuration_none)
  with True show ?thesis by (simp only: if_True)
next
  case False
  then have exs: "\<exists>log \<in> set userLogs. logKeyword log = LUNCH_START"
    and exe: "\<exists>log \<in> set userLogs. logKeyword log = LUNCH_END" by blast+
  from find_sortByTime_some [OF assms exs] obtain ls where ls: "ls \<in> set userLogs"
    "find (\<lambda>log. logKeyword log = LUNCH_START) (sortByTime userLogs) = Some ls"
    "rowMinutes ls = Min (set (minutesOf LUNCH_START userLogs))" by blast
  from find_sortByTime_some [OF assms exe] obtain le where le: "le \<in> set userLogs"
    "find (\<lambda>log. logKeyword log = LUNCH_END) (sortByTime userLogs) = Some le"
    "rowMinutes le = Min (set (minutesOf LUNCH_END userLogs))" by blast
  have "calculateLunchDuration (sortByTime userLogs) = Num (max 0 (rowMinutes le - rowMinutes ls))"
    by (rule calculateLunchDuration_some [OF ls(2) le(2)
          timesParse_Num [OF assms ls(1)] timesParse_Num [OF assms le(1)]])
  with False show ?thesis by (simp only: if_False ls(3) le(3))
qed

text \<open>
  Claim C5. The lunch minutes come from the first \<open>#lunchstart\<close> and the first
  \<open>#lunchend\<close> in time order only, that is from the earliest of each: they are the
  maximum of 0 and lunch end minus lunch start, and 0 when either event is missing.
  Later lunch starts and lunch ends do not enter.
\<close>

theorem lunch_minutes:
  assumes "timesParse userLogs"
  shows "calculateLunchDuration (sortByTime userLogs) =
           Num (if (\<forall>log \<in> set userLogs. logKeyword log \<noteq> LUNCH_START)
                   \<or> (\<forall>log \<in> set userLogs. logKeyword log \<noteq> LUNCH_END) then 0
                else max 0 (Min (set (minutesOf LUNCH_END userLogs))
                            - Min (set (minutesOf LUNCH_START userLogs))))"
  by (rule calculateLunchDuration_earliest [OF assms])

theorem lunch_minutes_witness:
  "timesParse
     [Row ''2024-01-15'' ''13:45:00'' ''Asha'' ''team'' LUNCH_END,
      Row ''2024-01-15'' ''13:30:00'' ''Asha'' ''team'' LUNCH_START,
      Row ''2024-01-15'' ''13:00:00'' ''Asha'' ''team'' LUNCH_START]
   \<and> calculateLunchDuration (sortByTime
     [Row ''2024-01-15'' ''13:45:00'' ''Asha'' ''team'' LUNCH_END,
      Row ''2024-01-15'' ''13:30:00'' ''Asha'' ''team'' LUNCH_START,
      Row ''2024-01-15'' ''13:00:00'' ''Asha'' ''team'' LUNCH_START]) = Num 45"
proof -
  let ?logs = "[Row ''2024-01-15'' ''13:45:00'' ''Asha'' ''team'' LUNCH_END,
      Row ''2024-01-15'' ''13:30:00'' ''Asha'' ''team'' LUNCH_START,
      Row ''2024-01-15'' ''13:00:00'' ''Asha'' ''team'' LUNCH_START]"
  have t: "timeToMinutes ''13:45:00'' = Num 825" "timeToMinutes ''13:30:00'' = Num 810"
    "timeToMinutes ''13:00:00'' = Num 780"
    by code_simp+
  have k: "LUNCH_START \<noteq> LUNCH_END" "LUNCH_END \<noteq> LUNCH_START" by (simp_all add: KEYWORDS_defs)
  have p: "timesParse ?logs" by (simp add: timesParse_def t)
  have s: "minutesOf LUNCH_START ?logs = [810, 780]" by (simp add: minutesOf_def t k)
  have e: "minutesOf LUNCH_END ?logs = [825]" by (simp add: minutesOf_def t k)
  from lunch_minutes [OF p]
  have "calculateLunchDuration (sortByTime ?logs) = Num 45"
    unfolding s e by (simp add: k)
  with p show ?thesis by (intro conjI)
qed

section \<open>Durations between a first and a last event\<close>

lemma calculateDuration_Num:
  assumes "timeToMinutes a = Num ma" and "timeToMinutes b = Num mb"
  shows "calculateDuration a b =
           Num (if a \<noteq> ''-'' \<and> b \<noteq> ''-'' \<and> ma < mb then mb - ma else 0)"
  using assms by (auto simp: calculateDuration_def Let_def)

lemma firstTime_filter:
  "firstTime kw S =
     (case filter (\<lambda>log. logKeyword log = kw) S of [] \<Rightarrow> ''-'' | l # _ \<Rightarrow> logTime l)"
  by (simp add: firstTime_def find_filter split: list.splits)

lemma lastTime_rev:
  "lastTime kw S =
     (case rev (filter (\<lambda>log. logKeyword log = kw) S) of [] \<Rightarrow> ''-'' | l # _ \<Rightarrow> logTime l)"
proof (cases "filter (\<lambda>log. logKeyword log = kw) S = []")
  case True
  then show ?thesis by (simp add: lastTime_def)
next
  case False
  then obtain ys y where ys: "filter (\<lambda>log. logKeyword log = kw) S = ys @ [y]"
    by (metis rev_exhaust)
  then show ?thesis by (simp add: lastTime_def)
qed

lemma timeToMinutes_sentinel: "timeToMinutes ''-'' = Num 0"
  by (simp add: timeToMinutes_def)

lemma firstTime_minutes:
  assumes "timesParse logs"
  shows "timeToMinutes (firstTime kw (sortByTime logs))
         = Num (theMinutes (timeToMinutes (firstTime kw (sortByTime logs))))"
proof (cases "\<exists>log \<in> set logs. logKeyword log = kw")
  case True
  from firstTime_some [OF assms True] obtain l where "l \<in> set logs"
    "firstTime kw (sortByTime logs) = logTime l" by blast
  with timesParse_Num [OF assms, of l] show ?thesis by (simp add: theMinutes_def)
next
  case False
  then have "firstTime kw (sortByTime logs) = ''-''" by (simp add: firstTime_none)
  then show ?thesis by (simp add: timeToMinutes_sentinel theMinutes_def)
qed

lemma lastTime_minutes:
  assumes "timesParse logs"
  shows "timeToMinutes (lastTime kw (sortByTime logs))
         = Num (theMinutes (timeToMinutes (lastTime kw (sortByTime logs))))"
proof (cases "\<exists>log \<in> set logs. logKeyword log = kw")
  case True
  from lastTime_some [OF assms True] obtain l where "l \<in> set logs"
    "lastTime kw (sortByTime logs) = logTime l" by blast
  with timesParse_Num [OF assms, of l] show ?thesis by (simp add: theMinutes_def)
next
  case False
  then have "lastTime kw (sortByTime logs) = ''-''" by (simp add: lastTime_none)
  then show ?thesis by (simp add: timeToMinutes_sentinel theMinutes_def)
qed

lemma firstTime_Min:
  assumes "timesParse logs" and "\<exists>log \<in> set logs. logKeyword log = kw"
  shows "timeToMinutes (firstTime kw (sortByTime logs)) = Num (Min (set (minutesOf kw logs)))"
proof -
  from firstTime_some [OF assms] obtain l where l: "l \<in> set logs"
    "firstTime kw (sortByTime logs) = logTime l"
    "rowMinutes l = Min (set (minutesOf kw logs))" by blast
  from timesParse_Num [OF assms(1) l(1)] show ?thesis by (simp only: l(2) l(3))
qed

lemma lastTime_Max:
  assumes "timesParse logs" and "\<exists>log \<in> set logs. logKeyword log = kw"
  shows "timeToMinutes (lastTime kw (sortByTime logs)) = Num (Max (set (minutesOf kw logs)))"
proof -
  from lastTime_some [OF assms] obtain l where l: "l \<in> set logs"
    "lastTime kw (sortByTime logs) = logTime l"
    "rowMinutes l = Max (set (minutesOf kw logs))" by blast
  from timesParse_Num [OF assms(1) l(1)] show ?thesis by (simp only: l(2) l(3))
qed

lemma duration_first_last:
  assumes "timesParse logs"
  shows "calculateDuration (firstTime ka (sortByTime logs)) (lastTime kb (sortByTime logs)) =
     Num (if firstTime ka (sortByTime logs) \<noteq> ''-'' \<and> lastTime kb (sortByTime logs) \<noteq> ''-''
             \<and> theMinutes (timeToMinutes (firstTime ka (sortByTime logs)))
                 < theMinutes (timeToMinutes (lastTime kb (sortByTime logs)))
          then theMinutes (timeToMinutes (lastTime kb (sortByTime logs)))
               - theMinutes (timeToMinutes (firstTime ka (sortByTime logs)))
          else 0)"
  by (rule calculateDuration_Num [OF firstTime_minutes [OF assms] lastTime_minutes [OF assms]])

text \<open>
  Claim C3. With the day's events of the employee sorted by time, \<open>entryTime\<close> is the time
  of the first \<open>#entry\<close> event, or \<open>-\<close> without one, and \<open>exitTime\<close> the time of the last
  \<open>#exit\<close> event, or \<open>-\<close> without one; these are the earliest entry and the latest exit
  in minutes. The presence minutes are exit minus entry when both are there and the
  exit is strictly later, and 0 in every other case, so never negative.
\<close>

theorem presence_minutes:
  assumes "timesParse userLogs"
  shows "let S = sortByTime userLogs;
             entryMinutes = theMinutes (timeToMinutes (entryTimeOf S));
             exitMinutes = theMinutes (timeToMinutes (exitTimeOf S))
         in entryTimeOf S =
              (case filter (\<lambda>log. logKeyword log = ENTRY) S of [] \<Rightarrow> ''-'' | l # _ \<Rightarrow> logTime l)
          \<and> exitTimeOf S =
              (case rev (filter (\<lambda>log. logKeyword log = EXIT) S) of
                 [] \<Rightarrow> ''-'' | l # _ \<Rightarrow> logTime l)
          \<and> totalHoursOf S =
              Num (if entryTimeOf S \<noteq> ''-'' \<and> exitTimeOf S \<noteq> ''-'' \<and> entryMinutes < exitMinutes
                   then exitMinutes - entryMinutes else 0)
          \<and> ((\<exists>log \<in> set userLogs. logKeyword log = ENTRY) \<longrightarrow>
                timeToMinutes (entryTimeOf S) = Num (Min (set (minutesOf ENTRY userLogs))))
          \<and> ((\<exists>log \<in> set userLogs. logKeyword log = EXIT) \<longrightarrow>
                timeToMinutes (exitTimeOf S) = Num (Max (set (minutesOf EXIT userLogs))))"
  unfolding Let_def entryTimeOf_def exitTimeOf_def totalHoursOf_def
proof (intro conjI impI)
  show "firstTime ENTRY (sortByTime userLogs) =
          (case filter (\<lambda>log. logKeyword log = ENTRY) (sortByTime userLogs) of
             [] \<Rightarrow> ''-'' | l # _ \<Rightarrow> logTime l)"
    by (rule firstTime_filter)
  show "lastTime EXIT (sortByTime userLogs) =
          (case rev (filter (\<lambda>log. logKeyword log = EXIT) (sortByTime userLogs)) of
             [] \<Rightarrow> ''-'' | l # _ \<Rightarrow> logTime l)"
    by (rule lastTime_rev)
  show "calculateDuration (firstTime ENTRY (sortByTime userLogs)) (lastTime EXIT (sortByTime userLogs)) =
     Num (if firstTime ENTRY (sortByTime userLogs) \<noteq> ''-'' \<and> lastTime EXIT (sortByTime userLogs) \<noteq> ''-''
             \<and> theMinutes (timeToMinutes (firstTime ENTRY (sortByTime userLogs)))
                 < theMinutes (timeToMinutes (lastTime EXIT (sortByTime userLogs)))
          then theMinutes (timeToMinutes (lastTime EXIT (sortByTime userLogs)))
               - theMinutes (timeToMinutes (firstTime ENTRY (sortByTime userLogs)))
          else 0)"
    by (rule duration_first_last [OF assms])
  show "timeToMinutes (firstTime ENTRY (sortByTime userLogs)) = Num (Min (set (minutesOf ENTRY userLogs)))"
    if "\<exists>log \<in> set userLogs. logKeyword log = ENTRY"
    by (rule firstTime_Min [OF assms that])
  show "timeToMinutes (lastTime EXIT (sortByTime userLogs)) = Num (Max (set (minutesOf EXIT userLogs)))"
    if "\<exists>log \<in> set userLogs. logKeyword log = EXIT"
    by (rule lastTime_Max [OF assms that])
qed

theorem presence_minutes_witness:
  "timesParse
     [Row ''2024-01-15'' ''18:00:00'' ''Asha'' ''team'' EXIT,
      Row ''2024-01-15'' ''09:00:00'' ''Asha'' ''team'' ENTRY,
      Row ''2024-01-15'' ''09:05:00'' ''Asha'' ''team'' ENTRY,
      Row ''2024-01-15'' ''17:00:00'' ''Asha'' ''team'' EXIT]
   \<and> totalHoursOf (sortByTime
     [Row ''2024-01-15'' ''18:00:00'' ''Asha'' ''team'' EXIT,
      Row ''2024-01-15'' ''09:00:00'' ''Asha'' ''team'' ENTRY,
      Row ''2024-01-15'' ''09:05:00'' ''Asha'' ''team'' ENTRY,
      Row ''2024-01-15'' ''17:00:00'' ''Asha'' ''team'' EXIT]) = Num 540"
proof -
  let ?logs = "[Row ''2024-01-15'' ''18:00:00'' ''Asha'' ''team'' EXIT,
      Row ''2024-01-15'' ''09:00:00'' ''Asha'' ''team'' ENTRY,
      Row ''2024-01-15'' ''09:05:00'' ''Asha'' ''team'' ENTRY,
      Row ''2024-01-15'' ''17:00:00'' ''Asha'' ''team'' EXIT]"
  have t: "timeToMinutes ''18:00:00'' = Num 1080" "timeToMinutes ''09:00:00'' = Num 540"
    "timeToMinutes ''09:05:00'' = Num 545" "timeToMinutes ''17:00:00'' = Num 1020"
    by code_simp+
  have p: "timesParse ?logs" by (simp add: timesParse_def t)
  have e: "entryTimeOf (sortByTime ?logs) = ''09:00:00''" by code_simp
  have x: "exitTimeOf (sortByTime ?logs) = ''18:00:00''" by code_simp
  from presence_minutes [OF p]
  have "totalHoursOf (sortByTime ?logs) =
          Num (if entryTimeOf (sortByTime ?logs) \<noteq> ''-'' \<and> exitTimeOf (sortByTime ?logs) \<noteq> ''-''
                  \<and> theMinutes (timeToMinutes (entryTimeOf (sortByTime ?logs)))
                      < theMinutes (timeToMinutes (exitTimeOf (sortByTime ?logs)))
               then theMinutes (timeToMinutes (exitTimeOf (sortByTime ?logs)))
                    - theMinutes (timeToMinutes (entryTimeOf (sortByTime ?logs)))
               else 0)"
    unfolding Let_def by (elim conjE)
  then have "totalHoursOf (sortByTime ?logs) = Num 540"
    unfolding e x t by (simp add: theMinutes_def)
  with p show ?thesis by (intro conjI)
qed

section \<open>Net working minutes\<close>

lemma calculateLunchDuration_nonneg: "\<exists>l. calculateLunchDuration S = Num l \<and> 0 \<le> l"
proof (cases "find (\<lambda>log. logKeyword log = LUNCH_START) S")
  case None
  then show ?thesis by (simp add: calculateLunchDuration_def)
next
  case ls: (Some ls)
  show ?thesis
  proof (cases "find (\<lambda>log. logKeyword log = LUNCH_END) S")
    case None
    with ls show ?thesis by (simp add: calculateLunchDuration_def)
  next
    case (Some le)
    show ?thesis
      by (cases "timeToMinutes (logTime ls)"; cases "timeToMinutes (logTime le)")
         (simp_all add: calculateLunchDuration_def ls Some)
  qed
qed

lemma findBreakEnd_gt:
  "findBreakEnd breakEnds usedEnds s i = Some j \<Longrightarrow> js_gt (snd (breakEnds ! j)) s"
proof (induction breakEnds usedEnds s i rule: findBreakEnd.induct)
  case (1 breakEnds usedEnds s i)
  then show ?case
    by (simp add: findBreakEnd.simps [of breakEnds usedEnds s i] split: if_splits)
qed

lemma js_gt_sub: "js_gt e s \<Longrightarrow> \<exists>n. js_sub e s = Num n \<and> 0 < n"
  by (cases e; cases s) simp_all

lemma matchBreaks_nonneg:
  "0 \<le> t \<Longrightarrow> \<exists>t'. fst (matchBreaks breakEnds starts (Num t, used)) = Num t' \<and> 0 \<le> t'"
proof (induction starts arbitrary: t used)
  case Nil
  then show ?case by simp
next
  case (Cons start starts)
  show ?case
  proof (cases "findBreakEnd breakEnds used (snd start) 0")
    case None
    with Cons.IH [OF Cons.prems, of used] show ?thesis by simp
  next
    case (Some j)
    from js_gt_sub [OF findBreakEnd_gt [OF Some]] obtain n
      where n: "js_sub (snd (breakEnds ! j)) (snd start) = Num n" "0 < n" by blast
    with Cons.prems have "0 \<le> t + n" by simp
    from Cons.IH [OF this, of "insert j used"] Some n(1) show ?thesis by simp
  qed
qed

lemma calculateBreakDuration_nonneg: "\<exists>b. calculateBreakDuration S = Num b \<and> 0 \<le> b"
  unfolding calculateBreakDuration_def Let_def
  by (rule matchBreaks_nonneg) simp

text \<open>
  Claim C2. The net working minutes are the maximum of 0 and the gross task window minus
  the lunch minutes minus the break minutes, where the gross task window runs from the
  first \<open>#daily-task\<close> event to the last \<open>#daily-report\<close> event of the sorted logs, that
  is from the earliest task start to the latest task end in minutes, and is 0 unless the
  end is later than the start. Lunch and break minutes are those of the earliest lunch
  start and end and of the greedy pairing. Gross and net are never negative.
\<close>

theorem net_working_minutes:
  assumes "timesParse userLogs"
  shows "let S = sortByTime userLogs;
             startMinutes = theMinutes (timeToMinutes (taskStartTimeOf S));
             endMinutes = theMinutes (timeToMinutes (taskEndTimeOf S))
         in \<exists>g l b.
              grossWorkingTimeOf S = Num g
            \<and> calculateLunchDuration S = Num l
            \<and> calculateBreakDuration S = Num b
            \<and> taskStartTimeOf S =
                (case filter (\<lambda>log. logKeyword log = DAILY_TASK) S of
                   [] \<Rightarrow> ''-'' | l # _ \<Rightarrow> logTime l)
            \<and> taskEndTimeOf S =
                (case rev (filter (\<lambda>log. logKeyword log = DAILY_REPORT) S) of
                   [] \<Rightarrow> ''-'' | l # _ \<Rightarrow> logTime l)
            \<and> g = (if taskStartTimeOf S \<noteq> ''-'' \<and> taskEndTimeOf S \<noteq> ''-''
                       \<and> startMinutes < endMinutes
                    then endMinutes - startMinutes else 0)
            \<and> 0 \<le> g
            \<and> netWorkingHoursOf S = Num (max 0 (g - l - b))
            \<and> 0 \<le> max 0 (g - l - b)
            \<and> ((\<exists>log \<in> set userLogs. logKeyword log = DAILY_TASK) \<longrightarrow>
                  timeToMinutes (taskStartTimeOf S) = Num (Min (set (minutesOf DAILY_TASK userLogs))))
            \<and> ((\<exists>log \<in> set userLogs. logKeyword log = DAILY_REPORT) \<longrightarrow>
                  timeToMinutes (taskEndTimeOf S) = Num (Max (set (minutesOf DAILY_REPORT userLogs))))
            \<and> l = (if (\<forall>log \<in> set userLogs. logKeyword log \<noteq> LUNCH_START)
                       \<or> (\<forall>log \<in> set userLogs. logKeyword log \<noteq> LUNCH_END) then 0
                    else max 0 (Min (set (minutesOf LUNCH_END userLogs))
                                - Min (set (minutesOf LUNCH_START userLogs))))
            \<and> b = pairMinutes (greedyBreakPairs userLogs)"
proof -
  let ?S = "sortByTime userLogs"
  let ?a = "theMinutes (timeToMinutes (taskStartTimeOf ?S))"
  let ?b = "theMinutes (timeToMinutes (taskEndTimeOf ?S))"
  let ?g = "if taskStartTimeOf ?S \<noteq> ''-'' \<and> taskEndTimeOf ?S \<noteq> ''-'' \<and> ?a < ?b
            then ?b - ?a else 0"
  let ?l = "if (\<forall>log \<in> set userLogs. logKeyword log \<noteq> LUNCH_START)
                       \<or> (\<forall>log \<in> set userLogs. logKeyword log \<noteq> LUNCH_END) then 0
                    else max 0 (Min (set (minutesOf LUNCH_END userLogs))
                                - Min (set (minutesOf LUNCH_START userLogs)))"
  let ?p = "pairMinutes (greedyBreakPairs userLogs)"
  have g: "grossWorkingTimeOf ?S = Num ?g"
    unfolding grossWorkingTimeOf_def taskStartTimeOf_def taskEndTimeOf_def
    by (rule duration_first_last [OF assms])
  have l: "calculateLunchDuration ?S = Num ?l"
    by (rule calculateLunchDuration_earliest [OF assms])
  have b: "calculateBreakDuration ?S = Num ?p"
    by (rule calculateBreakDuration_greedy [OF assms])
  have s: "taskStartTimeOf ?S =
                (case filter (\<lambda>log. logKeyword log = DAILY_TASK) ?S of
                   [] \<Rightarrow> ''-'' | l # _ \<Rightarrow> logTime l)"
    unfolding taskStartTimeOf_def by (rule firstTime_filter)
  have e: "taskEndTimeOf ?S =
                (case rev (filter (\<lambda>log. logKeyword log = DAILY_REPORT) ?S) of
                   [] \<Rightarrow> ''-'' | l # _ \<Rightarrow> logTime l)"
    unfolding taskEndTimeOf_def by (rule lastTime_rev)
  have g0: "0 \<le> ?g" by simp
  have n: "netWorkingHoursOf ?S = Num (max 0 (?g - ?l - ?p))"
    by (simp only: netWorkingHoursOf_def Let_def g l b js_sub.simps js_max.simps)
  have n0: "0 \<le> max 0 (?g - ?l - ?p)" by simp
  have mn: "(\<exists>log \<in> set userLogs. logKeyword log = DAILY_TASK) \<longrightarrow>
                  timeToMinutes (taskStartTimeOf ?S) = Num (Min (set (minutesOf DAILY_TASK userLogs)))"
    unfolding taskStartTimeOf_def using firstTime_Min [OF assms] by blast
  have mx: "(\<exists>log \<in> set userLogs. logKeyword log = DAILY_REPORT) \<longrightarrow>
                  timeToMinutes (taskEndTimeOf ?S) = Num (Max (set (minutesOf DAILY_REPORT userLogs)))"
    unfolding taskEndTimeOf_def using lastTime_Max [OF assms] by blast
  from g l b s e g0 n n0 mn mx show ?thesis
    unfolding Let_def by (intro exI [of _ ?g] exI [of _ ?l] exI [of _ ?p] conjI refl)
qed

theorem net_working_minutes_witness:
  "timesParse
     [Row ''2024-01-15'' ''11:00:00'' ''Asha'' ''team'' DAILY_TASK,
      Row ''2024-01-15'' ''18:00:00'' ''Asha'' ''team'' DAILY_REPORT,
      Row ''2024-01-15'' ''13:15:00'' ''Asha'' ''team'' BREAK_END,
      Row ''2024-01-15'' ''09:15:00'' ''Asha'' ''team'' DAILY_TASK,
      Row ''2024-01-15'' ''09:00:00'' ''Asha'' ''team'' LUNCH_START,
      Row ''2024-01-15'' ''13:00:00'' ''Asha'' ''team'' BREAK_START,
      Row ''2024-01-15'' ''17:00:00'' ''Asha'' ''team'' DAILY_REPORT]
   \<and> taskStartTimeOf (sortByTime
     [Row ''2024-01-15'' ''11:00:00'' ''Asha'' ''team'' DAILY_TASK,
      Row ''2024-01-15'' ''18:00:00'' ''Asha'' ''team'' DAILY_REPORT,
      Row ''2024-01-15'' ''13:15:00'' ''Asha'' ''team'' BREAK_END,
      Row ''2024-01-15'' ''09:15:00'' ''Asha'' ''team'' DAILY_TASK,
      Row ''2024-01-15'' ''09:00:00'' ''Asha'' ''team'' LUNCH_START,
      Row ''2024-01-15'' ''13:00:00'' ''Asha'' ''team'' BREAK_START,
      Row ''2024-01-15'' ''17:00:00'' ''Asha'' ''team'' DAILY_REPORT]) = ''09:15:00''
   \<and> taskEndTimeOf (sortByTime
     [Row ''2024-01-15'' ''11:00:00'' ''Asha'' ''team'' DAILY_TASK,
      Row ''2024-01-15'' ''18:00:00'' ''Asha'' ''team'' DAILY_REPORT,
      Row ''2024-01-15'' ''13:15:00'' ''Asha'' ''team'' BREAK_END,
      Row ''2024-01-15'' ''09:15:00'' ''Asha'' ''team'' DAILY_TASK,
      Row ''2024-01-15'' ''09:00:00'' ''Asha'' ''team'' LUNCH_START,
      Row ''2024-01-15'' ''13:00:00'' ''Asha'' ''team'' BREAK_START,
      Row ''2024-01-15'' ''17:00:00'' ''Asha'' ''team'' DAILY_REPORT]) = ''18:00:00''
   \<and> grossWorkingTimeOf (sortByTime
     [Row ''2024-01-15'' ''11:00:00'' ''Asha'' ''team'' DAILY_TASK,
      Row ''2024-01-15'' ''18:00:00'' ''Asha'' ''team'' DAILY_REPORT,
      Row ''2024-01-15'' ''13:15:00'' ''Asha'' ''team'' BREAK_END,
      Row ''2024-01-15'' ''09:15:00'' ''Asha'' ''team'' DAILY_TASK,
      Row ''2024-01-15'' ''09:00:00'' ''Asha'' ''team'' LUNCH_START,
      Row ''2024-01-15'' ''13:00:00'' ''Asha'' ''team'' BREAK_START,
      Row ''2024-01-15'' ''17:00:00'' ''Asha'' ''team'' DAILY_REPORT]) = Num 525
   \<and> netWorkingHoursOf (sortByTime
     [Row ''2024-01-15'' ''11:00:00'' ''Asha'' ''team'' DAILY_TASK,
      Row ''2024-01-15'' ''18:00:00'' ''Asha'' ''team'' DAILY_REPORT,
      Row ''2024-01-15'' ''13:15:00'' ''Asha'' ''team'' BREAK_END,
      Row ''2024-01-15'' ''09:15:00'' ''Asha'' ''team'' DAILY_TASK,
      Row ''2024-01-15'' ''09:00:00'' ''Asha'' ''team'' LUNCH_START,
      Row ''2024-01-15'' ''13:00:00'' ''Asha'' ''team'' BREAK_START,
      Row ''2024-01-15'' ''17:00:00'' ''Asha'' ''team'' DAILY_REPORT]) = Num 510"
proof -
  let ?logs = "[Row ''2024-01-15'' ''11:00:00'' ''Asha'' ''team'' DAILY_TASK,
      Row ''2024-01-15'' ''18:00:00'' ''Asha'' ''team'' DAILY_REPORT,
      Row ''2024-01-15'' ''13:15:00'' ''Asha'' ''team'' BREAK_END,
      Row ''2024-01-15'' ''09:15:00'' ''Asha'' ''team'' DAILY_TASK,
      Row ''2024-01-15'' ''09:00:00'' ''Asha'' ''team'' LUNCH_START,
      Row ''2024-01-15'' ''13:00:00'' ''Asha'' ''team'' BREAK_START,
      Row ''2024-01-15'' ''17:00:00'' ''Asha'' ''team'' DAILY_REPORT]"
  have p: "timesParse ?logs" by code_simp
  have ts: "taskStartTimeOf (sortByTime ?logs) = ''09:15:00''" by code_simp
  have te: "taskEndTimeOf (sortByTime ?logs) = ''18:00:00''" by code_simp
  have t: "timeToMinutes ''09:15:00'' = Num 555" "timeToMinutes ''18:00:00'' = Num 1080"
    by code_simp+
  have L: "calculateLunchDuration (sortByTime ?logs) = Num 0" by code_simp
  have B: "calculateBreakDuration (sortByTime ?logs) = Num 15" by code_simp
  from net_working_minutes [OF p] obtain g l b where
    G: "grossWorkingTimeOf (sortByTime ?logs) = Num g"
    and "calculateLunchDuration (sortByTime ?logs) = Num l"
    and "calculateBreakDuration (sortByTime ?logs) = Num b"
    and gv: "g = (if taskStartTimeOf (sortByTime ?logs) \<noteq> ''-''
                     \<and> taskEndTimeOf (sortByTime ?logs) \<noteq> ''-''
                     \<and> theMinutes (timeToMinutes (taskStartTimeOf (sortByTime ?logs)))
                         < theMinutes (timeToMinutes (taskEndTimeOf (sortByTime ?logs)))
                  then theMinutes (timeToMinutes (taskEndTimeOf (sortByTime ?logs)))
                       - theMinutes (timeToMinutes (taskStartTimeOf (sortByTime ?logs)))
                  else 0)"
    and N: "netWorkingHoursOf (sortByTime ?logs) = Num (max 0 (g - l - b))"
    unfolding Let_def by (elim exE conjE)
  from gv have g: "g = 525" unfolding ts te t by (simp add: theMinutes_def)
  from \<open>calculateLunchDuration (sortByTime ?logs) = Num l\<close> L have l: "l = 0" by simp
  from \<open>calculateBreakDuration (sortByTime ?logs) = Num b\<close> B have b: "b = 15" by simp
  from G g have G': "grossWorkingTimeOf (sortByTime ?logs) = Num 525" by simp
  from N g l b have N': "netWorkingHoursOf (sortByTime ?logs) = Num 510" by simp
  from p ts te G' N' show ?thesis by (intro conjI)
qed

section \<open>Break count\<close>

text \<open>
  Claim C4. The claim says that \<open>breakCount\<close> is the number of pairs that the greedy
  pairing forms. \<open>countBreaks\<close> returns the smaller of the number of break starts and the
  number of break ends instead. For a break end at 09:00 followed by a break start at
  10:00 the pairing forms no pair and the break minutes are 0, but the summary reports
  one break.
\<close>

theorem countBreaks_end_before_start:
  "fst (updateDailySummary
     \<lparr>raw_logs =
        [Row ''Date'' ''Time'' ''Employee Name'' ''Channel Name'' ''Keyword'',
         Row ''2024-01-15'' ''09:00:00'' ''Asha'' ''team'' BREAK_END,
         Row ''2024-01-15'' ''10:00:00'' ''Asha'' ''team'' BREAK_START],
      daily_summary =
        [[''Date'', ''Employee Name'', ''Entry Time'', ''Exit Time'', ''Total Hours'',
          ''Task Start'', ''Task End'', ''Lunch Duration'', ''Break Duration'',
          ''Break Count'', ''Net Working Hours'']]\<rparr> ''2024-01-15'' ''Asha'')
   = Some \<lparr>date = ''2024-01-15'', employeeName = ''Asha'', entryTime = ''-'', exitTime = ''-'',
           totalHours = ''0:00'', taskStartTime = ''-'', taskEndTime = ''-'',
           lunchDuration = ''0:00'', breakDuration = ''0:00'', breakCount = 1,
           netWorkingHours = ''0:00''\<rparr>
   \<and> greedyBreakPairs
        [Row ''2024-01-15'' ''09:00:00'' ''Asha'' ''team'' BREAK_END,
         Row ''2024-01-15'' ''10:00:00'' ''Asha'' ''team'' BREAK_START] = []"
  by code_simp

section \<open>Times that do not parse\<close>





lemma calculateDuration_NaN:
  assumes "isNaN (timeToMinutes a) \<or> isNaN (timeToMinutes b)"
  shows "calculateDuration a b = NaN \<or> calculateDuration a b = Num 0"
  using assms
  by (cases "timeToMinutes a"; cases "timeToMinutes b")
     (auto simp: calculateDuration_def Let_def)

lemma net_of_gross:
  assumes "gross = NaN \<or> gross = Num 0"
    and "lunch = Num l" and "0 \<le> l" and "brk = Num b" and "0 \<le> b"
  shows "formatDuration (js_max (Num 0) (js_sub (js_sub gross lunch) brk)) = ''0:00''"
  using assms by (auto simp: formatDuration_def)

lemma netWorkingHoursOf_NaN:
  assumes "isNaN (timeToMinutes (taskStartTimeOf S)) \<or> isNaN (timeToMinutes (taskEndTimeOf S))"
  shows "formatDuration (netWorkingHoursOf S) = ''0:00''"
proof -
  obtain l where l: "calculateLunchDuration S = Num l" "0 \<le> l"
    using calculateLunchDuration_nonneg [of S] by blast
  obtain b where b: "calculateBreakDuration S = Num b" "0 \<le> b"
    using calculateBreakDuration_nonneg [of S] by blast
  have g: "grossWorkingTimeOf S = NaN \<or> grossWorkingTimeOf S = Num 0"
    unfolding grossWorkingTimeOf_def by (rule calculateDuration_NaN [OF assms])
  show ?thesis
    unfolding netWorkingHoursOf_def Let_def
    by (rule net_of_gross [OF g l b])
qed

lemma breakEvents_none:
  "\<forall>log \<in> set logs. logKeyword log \<noteq> kw \<Longrightarrow> breakEvents kw (sortByTime logs) = []"
proof -
  assume "\<forall>log \<in> set logs. logKeyword log \<noteq> kw"
  then have "filter (\<lambda>log. logKeyword log = kw) (sortByTime logs) = []"
    by (simp add: filter_empty_conv set_sortByTime)
  then show ?thesis by (simp add: breakEvents_def sortBy_def)
qed

lemma matchBreaks_no_ends: "fst (matchBreaks [] starts (t, used)) = t"
  by (induction starts arbitrary: t used) (simp_all add: findBreakEnd.simps [of "[]"])

lemma calculateBreakDuration_none:
  assumes "(\<forall>log \<in> set logs. logKeyword log \<noteq> BREAK_START)
         \<or> (\<forall>log \<in> set logs. logKeyword log \<noteq> BREAK_END)"
  shows "calculateBreakDuration (sortByTime logs) = Num 0"
  using assms
proof
  assume "\<forall>log \<in> set logs. logKeyword log \<noteq> BREAK_START"
  then show ?thesis
    by (simp add: calculateBreakDuration_def breakEvents_none)
next
  assume "\<forall>log \<in> set logs. logKeyword log \<noteq> BREAK_END"
  then show ?thesis
    by (simp add: calculateBreakDuration_def breakEvents_none matchBreaks_no_ends)
qed

lemma calculateLunchDuration_missing:
  assumes "(\<forall>log \<in> set logs. logKeyword log \<noteq> LUNCH_START)
         \<or> (\<forall>log \<in> set logs. logKeyword log \<noteq> LUNCH_END)"
  shows "calculateLunchDuration (sortByTime logs) = Num 0"
proof -
  from assms have "find (\<lambda>log. logKeyword log = LUNCH_START) (sortByTime logs) = None
           \<or> find (\<lambda>log. logKeyword log = LUNCH_END) (sortByTime logs) = None"
    by (rule disjE) (simp_all add: find_sortByTime_none)
  then show ?thesis by (rule calculateLunchDuration_none)
qed

lemma updateDailySummary_some:
  assumes "filter (\<lambda>log. logEmployeeName log = emp) (getDailyLogs sh d) \<noteq> []"
  shows "updateDailySummary sh d emp =
     (let userLogs = sortByTime (filter (\<lambda>log. logEmployeeName log = emp) (getDailyLogs sh d));
          summary =
            \<lparr>date = d, employeeName = emp,
             entryTime = entryTimeOf userLogs, exitTime = exitTimeOf userLogs,
             totalHours = formatDuration (totalHoursOf userLogs),
             taskStartTime = taskStartTimeOf userLogs, taskEndTime = taskEndTimeOf userLogs,
             lunchDuration = formatDuration (calculateLunchDuration userLogs),
             breakDuration = formatDuration (calculateBreakDuration userLogs),
             breakCount = countBreaks userLogs,
             netWorkingHours = formatDuration (netWorkingHoursOf userLogs)\<rparr>
      in (Some summary, sheetsUpdateDailySummary sh summary))"
  using assms by (simp add: updateDailySummary_def Let_def)













end
